theory Spec2Isabelle
  imports Complex_Main "HOL-Library.AList" "HOL-Library.Multiset"
begin

unbundle bit_operations_syntax

section \<open>Python values the module works with\<close>

text \<open>
  The module is Python 2: \<open>/\<close> on two ints is floor division (HOL's \<open>div\<close> on
  \<open>int\<close>), ints are unbounded, and an exception ends the call. Exceptions are values of
  \<open>error\<close>; a function that can raise returns \<open>error + 'a\<close>.
\<close>

datatype error = TypeError | AttributeError | ZeroDivisionError

definition bindE :: "error + 'a \<Rightarrow> ('a \<Rightarrow> error + 'b) \<Rightarrow> error + 'b" where
  "bindE m f = (case m of Inl e \<Rightarrow> Inl e | Inr a \<Rightarrow> f a)"

text \<open>Object identity (\<open>is\<close>, \<open>is not\<close>) is equality of references.\<close>

type_synonym ref = nat

text \<open>The application object an item shows, by identity.\<close>

type_synonym obj = nat

text \<open>
  A dictionary whose values are all \<open>None\<close> (the guide-line dictionaries): an association
  list with distinct keys. \<open>keys()\<close> is \<open>map fst\<close>; Python 2 fixes no order for it, and
  nothing proved below depends on the order.
\<close>

type_synonym coord_dict = "(int \<times> unit) list"

section \<open>SnapInfo, GuideInfo, GridInfo\<close>

datatype visibility = Never | Always | Drag

datatype pen_style = Solid | Dash | Dot

record snap_info =
  distance :: int

record guide_info =
  guide_visible :: visibility
  guide_snapping :: bool
  guide_color :: nat
  guide_style :: pen_style

record grid_info =
  grid_visible :: visibility
  grid_snapping :: bool
  grid_color :: nat
  grid_style :: pen_style
  grid_size :: int
  grid_offset :: int

section \<open>List canvas items and the canvas\<close>

record image_slice =
  xtop :: int
  xbottom :: int

record theme =
  theme_name :: string
  slice :: image_slice

datatype cursor = CURSOR_ARROW | CURSOR_SIZEWE | CURSOR_SIZENWSE | CURSOR_SIZENESW | CURSOR_SIZENS

text \<open>The wx window of an item: its geometry and its mouse cursor.\<close>

record control =
  w_position :: "int \<times> int"
  w_size :: "int \<times> int"
  w_cursor :: cursor

text \<open>The Traits UI inside an item: open, or disposed by \<open>ui.dispose()\<close>.\<close>

datatype ui = UiOpen | UiDisposed

text \<open>
  A \<open>ListCanvasItem\<close>. \<open>control\<close> is \<open>None\<close> once the item is disposed; \<open>best_size\<close> is
  the \<open>ImagePanel\<close> property of that name.
\<close>

record item =
  object :: obj
  state :: string
  theme :: "theme option"
  control :: "control option"
  ui :: "ui option"
  best_size :: "int \<times> int"

text \<open>
  The canvas sees its \<open>ListCanvasAdapter\<close> through the adapter's \<open>get_\<close> methods; what
  they answer for an object is a parameter of the canvas model. The \<open>set_\<close> notifications
  are recorded in the canvas trace.
\<close>

record adapter_answers =
  get_position :: "obj \<Rightarrow> real \<times> real"
  get_size :: "obj \<Rightarrow> real \<times> real"
  get_can_resize :: "obj \<Rightarrow> bool"
  get_can_move :: "obj \<Rightarrow> bool"
  get_theme :: "string \<Rightarrow> obj \<Rightarrow> theme option"

datatype event =
    SetDeactivated obj
  | SetActivated obj
  | Raise ref
  | UiDispose ref
  | Destroy ref
  | SetDimensions ref int int int int

record canvas =
  scrollable :: bool
  items :: "ref list"
  active_item :: "ref option"
  adapter :: adapter_answers
  snap_info :: snap_info
  guide_info :: guide_info
  grid_info :: grid_info
  canvas_position :: "int \<times> int"
  canvas_size :: "int \<times> int"
  client_size :: "int \<times> int"
  virtual_size :: "int \<times> int"
  view_start :: "int \<times> int"
  scroll_ppu :: "int \<times> int"
  canvas_state :: string
  drag_item :: "ref option"
  drag_info :: "(int \<times> int \<times> int \<times> int \<times> int \<times> int \<times> int) option"
  drag_guides :: "(coord_dict \<times> coord_dict) option"
  heap :: "ref \<Rightarrow> item"
  trace :: "event list"

subsection \<open>Item properties\<close>

text \<open>\<open>_get_position\<close> and \<open>_get_size\<close> read the control; on a disposed item they raise.\<close>

definition position :: "item \<Rightarrow> error + (int \<times> int)" where
  "position it = (case control it of None \<Rightarrow> Inl AttributeError | Some w \<Rightarrow> Inr (w_position w))"

definition size' :: "item \<Rightarrow> error + (int \<times> int)" where
  "size' it = (case control it of None \<Rightarrow> Inl AttributeError | Some w \<Rightarrow> Inr (w_size w))"

subsection \<open>\<open>ListCanvas.snap_x\<close>, \<open>ListCanvas.snap_y\<close>\<close>

text \<open>
  The loop over the guide-line coordinates, shared by both axes: \<open>t\<close> is the adjusted
  coordinate, \<open>p\<close> the original one, the accumulator is \<open>(snap, d)\<close>.
\<close>

fun guide_snap :: "int \<Rightarrow> int \<Rightarrow> int list \<Rightarrow> int \<times> int \<Rightarrow> int \<times> int" where
  "guide_snap p t [] (snap, d) = (snap, d)"
| "guide_snap p t (x0 # ks) (snap, d) =
     (let delta = \<bar>t - x0\<bar> in
      if delta \<le> snap then guide_snap p t ks (delta, x0 - p)
      else guide_snap p t ks (snap, d))"

text \<open>
  The two grid tests run only when grid snapping is on; the division by a zero grid size
  raises. Reading \<open>self._drag_guides\<close> while it is \<open>None\<close> (no drag has set it) raises
  on the tuple assignment.
\<close>

definition snap_x :: "canvas \<Rightarrow> int \<Rightarrow> int \<Rightarrow> error + int" where
  "snap_x c x dx =
     (let snap = distance (snap_info c) in
      if snap = 0 then Inr dx
      else
        let xt = x + dx; gi = grid_info c in
        if grid_snapping gi \<and> grid_size gi = 0 then Inl ZeroDivisionError
        else
          let n = (xt - grid_offset gi) div grid_size gi;
              x0 = n * grid_size gi + grid_offset gi;
              x1 = x0 + grid_size gi in
          if grid_snapping gi \<and> \<bar>xt - x0\<bar> \<le> snap then Inr (x0 - x)
          else if grid_snapping gi \<and> \<bar>xt - x1\<bar> \<le> snap then Inr (x1 - x)
          else if guide_snapping (guide_info c) then
            (case drag_guides c of
               None \<Rightarrow> Inl TypeError
             | Some (xs, ys) \<Rightarrow> Inr (snd (guide_snap x xt (map fst xs) (snap, dx))))
          else Inr dx)"

definition snap_y :: "canvas \<Rightarrow> int \<Rightarrow> int \<Rightarrow> error + int" where
  "snap_y c y dy =
     (let snap = distance (snap_info c) in
      if snap = 0 then Inr dy
      else
        let yt = y + dy; gi = grid_info c in
        if grid_snapping gi \<and> grid_size gi = 0 then Inl ZeroDivisionError
        else
          let n = (yt - grid_offset gi) div grid_size gi;
              y0 = n * grid_size gi + grid_offset gi;
              y1 = y0 + grid_size gi in
          if grid_snapping gi \<and> \<bar>yt - y0\<bar> \<le> snap then Inr (y0 - y)
          else if grid_snapping gi \<and> \<bar>yt - y1\<bar> \<le> snap then Inr (y1 - y)
          else if guide_snapping (guide_info c) then
            (case drag_guides c of
               None \<Rightarrow> Inl TypeError
             | Some (xs, ys) \<Rightarrow> Inr (snd (guide_snap y yt (map fst ys) (snap, dy))))
          else Inr dy)"

subsection \<open>\<open>ListCanvas._guide_lines\<close>\<close>

fun guide_lines_loop ::
  "canvas \<Rightarrow> ref list \<Rightarrow> coord_dict \<times> coord_dict \<Rightarrow> error + (coord_dict \<times> coord_dict)" where
  "guide_lines_loop c [] (xs, ys) = Inr (xs, ys)"
| "guide_lines_loop c (r # rs) (xs, ys) =
     (if Some r \<noteq> drag_item c then
        bindE (position (heap c r)) (\<lambda>(x, y).
        bindE (size' (heap c r)) (\<lambda>(dx, dy).
          guide_lines_loop c rs
            (AList.update (x + dx) () (AList.update x () xs),
             AList.update (y + dy) () (AList.update y () ys))))
      else guide_lines_loop c rs (xs, ys))"

definition guide_lines :: "canvas \<Rightarrow> error + (coord_dict \<times> coord_dict)" where
  "guide_lines c =
     (let (dx, dy) = canvas_size c;
          xs = AList.update (dx - 1) () [(0, ())];
          ys = AList.update (dy - 1) () [(0, ())]
      in guide_lines_loop c (items c) (xs, ys))"

subsection \<open>\<open>ListCanvas.initial_position_for\<close>\<close>

fun initial_position_loop ::
  "canvas \<Rightarrow> ref list \<Rightarrow> int \<times> int \<times> int \<Rightarrow> error + (int \<times> int \<times> int)" where
  "initial_position_loop c [] (xmax, ymax, ynext) = Inr (xmax, ymax, ynext)"
| "initial_position_loop c (r # rs) (xmax, ymax, ynext) =
     bindE (position (heap c r)) (\<lambda>(x, y).
     bindE (size' (heap c r)) (\<lambda>(idx, idy).
       if y > ymax then initial_position_loop c rs (x + idx, y, y + idy)
       else if y = ymax then initial_position_loop c rs (max xmax (x + idx), ymax, max ynext (y + idy))
       else initial_position_loop c rs (xmax, ymax, ynext)))"

definition initial_position_for :: "canvas \<Rightarrow> int \<Rightarrow> int \<Rightarrow> error + (int \<times> int)" where
  "initial_position_for c dx dy =
     (let (cdx, cdy) = canvas_size c in
      bindE (initial_position_loop c (items c) (0, 0, 0)) (\<lambda>(xmax, ymax, ynext).
        if xmax + dx > cdx then Inr (0, ynext) else Inr (xmax, ymax)))"

subsection \<open>\<open>ListCanvas.canvas_paint\<close>\<close>

datatype pen = TRANSPARENT_PEN | Pen nat nat pen_style

datatype dc_op =
    SetBrushBackground
  | SetPen pen
  | DrawRectangle int int int int
  | DrawLine int int int int

text \<open>
  What one repaint sends to the device context, in the three steps of the handler: the
  background, the grid, the guide lines. The calls made are their concatenation.
\<close>

record painting =
  background_ops :: "dc_op list"
  grid_ops :: "dc_op list"
  guide_ops :: "dc_op list"

definition dc_calls :: "painting \<Rightarrow> dc_op list" where
  "dc_calls p = background_ops p @ grid_ops p @ guide_ops p"

text \<open>Python's \<open>range(a, b, s)\<close>; a zero step raises (here the \<open>%\<close> before it already does).\<close>

definition py_range :: "int \<Rightarrow> int \<Rightarrow> int \<Rightarrow> int list" where
  "py_range a b s =
     (if s > 0 then map (\<lambda>k. a + int k * s) [0 ..< nat ((b - a + s - 1) div s)]
      else if s < 0 then map (\<lambda>k. a + int k * s) [0 ..< nat ((a - b - s - 1) div (- s))]
      else [])"

text \<open>The size painted: the client size, or the larger virtual size when scrollable.\<close>

definition paint_size :: "canvas \<Rightarrow> int \<times> int" where
  "paint_size c =
     (let (wdx, wdy) = client_size c in
      if scrollable c
      then (max wdx (fst (virtual_size c)), max wdy (snd (virtual_size c)))
      else (wdx, wdy))"

text \<open>"Draw the grid (if necessary)".\<close>

definition paint_grid :: "canvas \<Rightarrow> int \<Rightarrow> int \<Rightarrow> error + dc_op list" where
  "paint_grid c wdx wdy =
     (let gi = grid_info c in
      if grid_visible gi = Always \<or> (grid_visible gi = Drag \<and> canvas_state c = ''dragging'')
      then
        if grid_size gi = 0 then Inl ZeroDivisionError
        else
          let size = grid_size gi; offset = grid_offset gi mod size in
          Inr (SetPen (Pen (grid_color gi) 1 (grid_style gi))
               # map (\<lambda>x. DrawLine x 0 x wdy) (py_range offset wdx size)
               @ map (\<lambda>y. DrawLine 0 y wdx y) (py_range offset wdy size))
      else Inr [])"

text \<open>
  "Draw the guide lines (if necessary)". Python's \<open>and\<close> binds tighter than \<open>or\<close>: the
  test is \<open>always or ((drag and dragging) and len(items) > 0)\<close>.
\<close>

definition paint_guides :: "canvas \<Rightarrow> int \<Rightarrow> int \<Rightarrow> error + dc_op list" where
  "paint_guides c wdx wdy =
     (let gi = guide_info c in
      if guide_visible gi = Always \<or>
         ((guide_visible gi = Drag \<and> canvas_state c = ''dragging'') \<and> length (items c) > 0)
      then
        bindE (guide_lines c) (\<lambda>(xs, ys).
          Inr (SetPen (Pen (guide_color gi) 1 (guide_style gi))
               # map (\<lambda>x. DrawLine x 0 x wdy) (map fst xs)
               @ map (\<lambda>y. DrawLine 0 y wdx y) (map fst ys)))
      else Inr [])"

definition canvas_paint :: "canvas \<Rightarrow> error + painting" where
  "canvas_paint c =
     (let (wdx, wdy) = paint_size c;
          bg = [SetBrushBackground, SetPen TRANSPARENT_PEN, DrawRectangle 0 0 wdx wdy]
      in
      bindE (paint_grid c wdx wdy) (\<lambda>grid.
      bindE (paint_guides c wdx wdy) (\<lambda>guides.
        Inr \<lparr>background_ops = bg, grid_ops = grid, guide_ops = guides\<rparr>)))"

text \<open>The calls that draw a line.\<close>

fun is_line :: "dc_op \<Rightarrow> bool" where
  "is_line (DrawLine x0 y0 x1 y1) = True"
| "is_line _ = False"

subsection \<open>\<open>ListCanvasItem.resize\<close>\<close>

text \<open>
  \<open>self.control.SetDimensions(x, y, dx, dy)\<close>: the window takes the geometry it is given
  (what wx does beyond that is outside the module).
\<close>

definition set_dimensions :: "canvas \<Rightarrow> ref \<Rightarrow> int \<Rightarrow> int \<Rightarrow> int \<Rightarrow> int \<Rightarrow> error + canvas" where
  "set_dimensions c r x y dx dy =
     (case control (heap c r) of
        None \<Rightarrow> Inl AttributeError
      | Some w \<Rightarrow>
          Inr (c\<lparr>heap := (heap c)(r := (heap c r)\<lparr>control :=
                             Some (w\<lparr>w_position := (x, y), w_size := (dx, dy)\<rparr>)\<rparr>),
                 trace := trace c @ [SetDimensions r x y dx dy]\<rparr>))"

text \<open>The x-axis block of \<open>resize\<close>: the new \<open>(xo, dxo)\<close>.\<close>

definition resize_x :: "canvas \<Rightarrow> int \<Rightarrow> int \<Rightarrow> int \<Rightarrow> int \<Rightarrow> error + (int \<times> int)" where
  "resize_x c mode xo dxo dx =
     (if mode AND 4 \<noteq> 0 then
        bindE (snap_x c xo dx) (\<lambda>dxs.
          if mode AND 1 \<noteq> 0 then Inr (xo + dxs, dxo - dxs)
          else if dxs = dx then bindE (snap_x c (xo + dxo) dx) (\<lambda>d. Inr (xo + d, dxo))
          else Inr (xo + dxs, dxo))
      else if mode AND 1 \<noteq> 0 then bindE (snap_x c (xo + dxo) dx) (\<lambda>d. Inr (xo, dxo + d))
      else Inr (xo, dxo))"

text \<open>The y-axis block of \<open>resize\<close>: the new \<open>(yo, dyo)\<close>.\<close>

definition resize_y :: "canvas \<Rightarrow> int \<Rightarrow> int \<Rightarrow> int \<Rightarrow> int \<Rightarrow> error + (int \<times> int)" where
  "resize_y c mode yo dyo dy =
     (if mode AND 8 \<noteq> 0 then
        bindE (snap_y c yo dy) (\<lambda>dys.
          if mode AND 2 \<noteq> 0 then Inr (yo + dys, dyo - dys)
          else if dys = dy then bindE (snap_y c (yo + dyo) dy) (\<lambda>d. Inr (yo + d, dyo))
          else Inr (yo + dys, dyo))
      else if mode AND 2 \<noteq> 0 then bindE (snap_y c (yo + dyo) dy) (\<lambda>d. Inr (yo, dyo + d))
      else Inr (yo, dyo))"

definition resize ::
  "canvas \<Rightarrow> ref \<Rightarrow> int \<Rightarrow> int \<Rightarrow> int \<Rightarrow> int \<Rightarrow> int \<Rightarrow> int \<Rightarrow> int \<Rightarrow> error + canvas" where
  "resize c r mode xo yo dxo dyo dx dy =
     (let dx = (if mode AND 5 = 0 then 0 else dx);
          dy = (if mode AND 10 = 0 then 0 else dy)
      in
      bindE (resize_x c mode xo dxo dx) (\<lambda>(xo, dxo).
      bindE (resize_y c mode yo dyo dy) (\<lambda>(yo, dyo).
      bindE (position (heap c r)) (\<lambda>(cx, cy).
      bindE (size' (heap c r)) (\<lambda>(cdx, cdy).
        if xo \<noteq> cx \<or> yo \<noteq> cy \<or> dxo \<noteq> cdx \<or> dyo \<noteq> cdy
        then set_dimensions c r xo yo dxo dyo
        else Inr c)))))"

subsection \<open>\<open>ListCanvasItem._set_cursor\<close>\<close>

text \<open>The resize-mode decoding, for a pointer inside the item and an adapter that permits resizing.\<close>

definition resize_mode :: "int \<Rightarrow> int \<Rightarrow> int \<Rightarrow> int \<Rightarrow> cursor \<times> int" where
  "resize_mode x y dx dy =
     (let n = 4 in
      if x < n then
        (if y < n then (CURSOR_SIZENWSE, 15)
         else if y \<ge> dy - n then (CURSOR_SIZENESW, 7)
         else (CURSOR_SIZEWE, 5))
      else if x \<ge> dx - n then
        (if y < n then (CURSOR_SIZENESW, 11)
         else if y \<ge> dy - n then (CURSOR_SIZENWSE, 3)
         else (CURSOR_SIZEWE, 1))
      else if y < n \<or> y \<ge> dy - n then
        (if y < n then (CURSOR_SIZENS, 10) else (CURSOR_SIZENS, 2))
      else (CURSOR_ARROW, 0))"

text \<open>
  Returns the item with its control's cursor set, and the mode. Reading the size of a
  disposed item and the image slice of a missing theme raise.
\<close>

definition set_cursor :: "adapter_answers \<Rightarrow> item \<Rightarrow> int \<Rightarrow> int \<Rightarrow> error + (item \<times> int)" where
  "set_cursor ad it x y =
     bindE (size' it) (\<lambda>(dx, dy).
     bindE
       (if x \<ge> 0 \<and> x < dx \<and> y \<ge> 0 \<and> y < dy then
          let (cursor, mode) =
                (if get_can_resize ad (object it) then resize_mode x y dx dy else (CURSOR_ARROW, 0))
          in
          if mode = 0 \<and> get_can_move ad (object it) then
            (case theme it of
               None \<Rightarrow> Inl AttributeError
             | Some th \<Rightarrow>
                 if y < xtop (slice th) \<or> y \<ge> dy - xbottom (slice th)
                 then Inr (cursor, 12) else Inr (cursor, mode))
          else Inr (cursor, mode)
        else Inr (CURSOR_ARROW, 0))
       (\<lambda>(cursor, mode).
          case control it of
            None \<Rightarrow> Inl AttributeError
          | Some w \<Rightarrow> Inr (it\<lparr>control := Some (w\<lparr>w_cursor := cursor\<rparr>)\<rparr>, mode)))"

subsection \<open>\<open>ListCanvasItem._state_changed\<close> and \<open>ListCanvas.activate\<close>\<close>

text \<open>
  \<open>item.state = s\<close>. Traits calls \<open>_state_changed\<close> only when the value changes. The
  handler takes the theme for the new state from the adapter and, when the item became
  active, raises its control.
\<close>

definition set_state :: "canvas \<Rightarrow> ref \<Rightarrow> string \<Rightarrow> canvas" where
  "set_state c r s =
     (let it = heap c r in
      if state it = s then c
      else
        let c1 = c\<lparr>heap := (heap c)(r := it\<lparr>state := s,
                                               theme := get_theme (adapter c) s (object it)\<rparr>)\<rparr>
        in if s = ''active'' \<and> control it \<noteq> None then c1\<lparr>trace := trace c1 @ [Raise r]\<rparr> else c1)"

text \<open>\<open>self.adapter.set_deactivated(o)\<close> and \<open>self.adapter.set_activated(o)\<close>.\<close>

definition notify :: "canvas \<Rightarrow> event \<Rightarrow> canvas" where
  "notify c e = c\<lparr>trace := trace c @ [e]\<rparr>"

definition activate :: "canvas \<Rightarrow> ref option \<Rightarrow> canvas" where
  "activate c item =
     (let active = active_item c in
      if item \<noteq> active then
        let c1 = (case active of
                    None \<Rightarrow> c
                  | Some a \<Rightarrow>
                      let c' = set_state c a ''inactive''
                      in notify c' (SetDeactivated (object (heap c' a))));
            c2 = c1\<lparr>active_item := item\<rparr>
        in (case item of
              None \<Rightarrow> c2
            | Some r \<Rightarrow>
                let c' = set_state c2 r ''active''
                in notify c' (SetActivated (object (heap c' r))))
      else c)"

subsection \<open>\<open>ListCanvasItem.dispose\<close> and \<open>ListCanvasItem.initialize_position\<close>\<close>

definition dispose :: "canvas \<Rightarrow> ref \<Rightarrow> canvas" where
  "dispose c r =
     (let c1 = (case ui (heap c r) of
                  None \<Rightarrow> c
                | Some u \<Rightarrow> c\<lparr>heap := (heap c)(r := (heap c r)\<lparr>ui := Some UiDisposed\<rparr>),
                               trace := trace c @ [UiDispose r]\<rparr>)
      in case control (heap c1 r) of
           None \<Rightarrow> c1
         | Some w \<Rightarrow> c1\<lparr>heap := (heap c1)(r := (heap c1 r)\<lparr>control := None\<rparr>),
                         trace := trace c1 @ [Destroy r]\<rparr>)"

text \<open>
  Python's \<open>int(v)\<close> on a float truncates toward zero. The adapter's sizes and positions
  are floats; they are modelled by reals, and nothing proved below depends on their
  rounding.
\<close>

definition py_int :: "real \<Rightarrow> int" where
  "py_int v = (if v \<ge> 0 then \<lfloor>v\<rfloor> else \<lceil>v\<rceil>)"

definition initial_extent :: "real \<Rightarrow> int \<Rightarrow> int \<Rightarrow> int" where
  "initial_extent d best cd =
     (if d \<le> 0 then best else if d \<le> 1 then py_int (d * of_int cd) else py_int d)"

definition initialize_position :: "canvas \<Rightarrow> ref \<Rightarrow> error + canvas" where
  "initialize_position c r =
     (let it = heap c r;
          (bdx, bdy) = best_size it;
          (cdx, cdy) = canvas_size c;
          (x, y) = get_position (adapter c) (object it);
          (dx, dy) = get_size (adapter c) (object it);
          dx = initial_extent dx bdx cdx;
          dy = initial_extent dy bdy cdy;
          x = (if x \<le> 0 then (if y > 0 then 0 else x)
               else if x \<le> 1 then of_int (py_int (x * of_int cdx))
               else of_int (py_int x))
      in
      bindE
        (if y \<le> 0 then
           (if x \<le> 0 then initial_position_for c dx dy else Inr (py_int x, 0))
         else if y \<le> 1 then Inr (py_int x, py_int (y * of_int cdy))
         else Inr (py_int x, py_int y))
        (\<lambda>(x, y). set_dimensions c r x y dx dy))"

subsection \<open>\<open>ListCanvas._adjust_size\<close>\<close>

fun adjust_size_loop :: "canvas \<Rightarrow> ref list \<Rightarrow> int \<times> int \<Rightarrow> int \<times> int \<Rightarrow> error + (int \<times> int)" where
  "adjust_size_loop c [] (xvs, yvs) (cdx, cdy) = Inr (cdx, cdy)"
| "adjust_size_loop c (r # rs) (xvs, yvs) (cdx, cdy) =
     bindE (position (heap c r)) (\<lambda>(x, y).
     bindE (size' (heap c r)) (\<lambda>(dx, dy).
       adjust_size_loop c rs (xvs, yvs) (max cdx (x + dx + xvs), max cdy (y + dy + yvs))))"

definition adjust_size :: "canvas \<Rightarrow> error + canvas" where
  "adjust_size c =
     (if scrollable c then
        let (xvs, yvs) = view_start c; (xppu, yppu) = scroll_ppu c in
        bindE (adjust_size_loop c (items c) (xvs * xppu, yvs * yppu) (0, 0)) (\<lambda>vs.
          Inr (c\<lparr>virtual_size := vs\<rparr>))
      else Inr c)"

subsection \<open>\<open>ListCanvas.replace_items\<close>\<close>

text \<open>
  Python's list slicing and \<open>list.insert\<close>: an index below zero counts from the end, and
  an index outside the list is clipped to it.
\<close>

definition slice_index :: "nat \<Rightarrow> int \<Rightarrow> nat" where
  "slice_index n i = (if i < 0 then nat (max 0 (int n + i)) else min n (nat i))"

definition py_slice :: "'a list \<Rightarrow> int \<Rightarrow> int \<Rightarrow> 'a list" where
  "py_slice xs i j =
     (let a = slice_index (length xs) i; b = slice_index (length xs) j
      in take (b - a) (drop a xs))"

definition py_del_slice :: "'a list \<Rightarrow> int \<Rightarrow> int \<Rightarrow> 'a list" where
  "py_del_slice xs i j =
     (let a = slice_index (length xs) i; b = slice_index (length xs) j
      in take a xs @ drop (max a b) xs)"

definition py_insert :: "'a list \<Rightarrow> int \<Rightarrow> 'a \<Rightarrow> 'a list" where
  "py_insert xs i x = (let a = slice_index (length xs) i in take a xs @ x # drop a xs)"

text \<open>"Initialize each item's position, then add it to the list".\<close>

fun insert_items :: "canvas \<Rightarrow> ref list \<Rightarrow> int \<Rightarrow> error + canvas" where
  "insert_items c [] i = Inr c"
| "insert_items c (r # rs) i =
     bindE (initialize_position c r) (\<lambda>c'.
       insert_items (c'\<lparr>items := py_insert (items c') i r\<rparr>) rs (i + 1))"

text \<open>\<open>replace_items(new, i, j)\<close>; the replacement list is a list of its own.\<close>

definition replace_items :: "canvas \<Rightarrow> ref list \<Rightarrow> int \<Rightarrow> int \<Rightarrow> error + canvas" where
  "replace_items c new i j =
     (let self_items = items c;
          j = (if j < 0 then int (length self_items) else j);
          c1 = (if (case active_item c of None \<Rightarrow> False
                    | Some a \<Rightarrow> a \<in> set (py_slice self_items i j))
                then c\<lparr>active_item := None\<rparr> else c);
          c2 = fold (\<lambda>r c. dispose c r) (py_slice self_items i j) c1;
          c3 = c2\<lparr>items := py_del_slice self_items i j\<rparr>
      in bindE (insert_items c3 new i) adjust_size)"

section \<open>\<open>ListCanvasAdapter\<close>\<close>

text \<open>
  The values an adapter attribute can have: \<open>None\<close>, a bool, a string, a theme, an
  object, a pair of floats. \<open>truthy\<close> is Python's truth value of them (what \<open>or\<close> tests).
\<close>

datatype pyval = VNone | VBool bool | VStr string | VTheme theme | VObj obj | VPair real real

fun truthy :: "pyval \<Rightarrow> bool" where
  "truthy VNone = False"
| "truthy (VBool b) = b"
| "truthy (VStr s) = (s \<noteq> [])"
| "truthy (VTheme t) = True"
| "truthy (VObj ob) = True"
| "truthy (VPair a b) = True"

text \<open>
  The value of a trait of an adapter, which may be a property computed from the
  adapter's current \<open>item\<close> and \<open>drop\<close>.
\<close>

type_synonym getter = "obj \<Rightarrow> obj option \<Rightarrow> pyval"

text \<open>
  An application object shown on the canvas: its class name, the names of the classes
  of its mro, whether it implements \<open>IListCanvasItem\<close>, and its traits (a trait's value
  may depend on the object's \<open>list_canvas_item_drop\<close>).
\<close>

record app_object =
  class_name :: string
  mro_names :: "string list"
  implements_item :: bool
  obj_traits :: "string \<rightharpoonup> (obj option \<Rightarrow> pyval)"
  list_canvas_item_drop :: "obj option"

text \<open>A sub-adapter (\<open>IListCanvasAdapter\<close>).\<close>

record sub_adapter =
  sa_item :: "obj option"
  sa_drop :: "obj option"
  accepts :: "obj \<Rightarrow> obj option \<Rightarrow> bool"
  is_cacheable :: bool
  sa_traits :: "string \<rightharpoonup> getter"

text \<open>
  A handler is one of the four closures \<open>_result_for\<close> and \<open>_get_handler_for\<close> build: it
  holds the sub-adapter object (or \<open>self\<close>) and the trait name, and reads \<open>self.item\<close> and
  \<open>self.drop\<close> when it is called.
\<close>

datatype handler = SubGet ref string | SubSet ref string | SelfGet string | SelfSet string

text \<open>Setting an event trait to \<open>True\<close> fires it; the firings are recorded.\<close>

datatype fired = ItemFired obj string | SubFired ref string obj | SelfFired string obj

text \<open>
  The adapter with the objects it refers to: \<open>ad_item\<close> and \<open>ad_drop\<close> are \<open>self.item\<close>
  and \<open>self.drop\<close>, \<open>adapters\<close> the list of sub-adapters (references into \<open>subs\<close>),
  \<open>cache\<close> the handler cache (a stored handler can be \<open>None\<close>), \<open>ad_traits\<close> the
  adapter's own traits by name.
\<close>

record adapter_state =
  ad_item :: "obj option"
  ad_drop :: "obj option"
  adapters :: "ref list"
  cache :: "string \<rightharpoonup> handler option"
  ad_traits :: "string \<rightharpoonup> getter"
  subs :: "ref \<Rightarrow> sub_adapter"
  objects :: "obj \<Rightarrow> app_object"
  fired_log :: "fired list"

text \<open>
  Calling a handler. \<open>_result_for\<close> sets \<open>self.item\<close> before it calls any handler; a
  getter is given that item and \<open>self.drop\<close>.
\<close>

definition invoke :: "adapter_state \<Rightarrow> handler \<Rightarrow> (error + pyval) \<times> adapter_state" where
  "invoke s h =
     (case ad_item s of
        None \<Rightarrow> (Inl AttributeError, s)
      | Some it \<Rightarrow>
         (case h of
            SubGet a t \<Rightarrow>
              let s' = s\<lparr>subs := (subs s)(a := (subs s a)\<lparr>sa_item := ad_item s, sa_drop := ad_drop s\<rparr>)\<rparr>
              in (case sa_traits (subs s a) t of
                    None \<Rightarrow> (Inl AttributeError, s')
                  | Some g \<Rightarrow> (Inr (g it (ad_drop s)), s'))
          | SubSet a t \<Rightarrow>
              (Inr VNone,
               s\<lparr>subs := (subs s)(a := (subs s a)\<lparr>sa_item := ad_item s, sa_drop := ad_drop s\<rparr>),
                 fired_log := fired_log s @ [SubFired a t it]\<rparr>)
          | SelfGet n \<Rightarrow>
              (case ad_traits s n of
                 None \<Rightarrow> (Inl AttributeError, s)
               | Some g \<Rightarrow> (Inr (g it (ad_drop s)), s))
          | SelfSet n \<Rightarrow> (Inr VNone, s\<lparr>fired_log := fired_log s @ [SelfFired n it]\<rparr>)))"

text \<open>\<open>ListCanvasAdapter._get_handler_for\<close>\<close>

definition get_handler_for :: "adapter_state \<Rightarrow> string \<Rightarrow> string \<Rightarrow> handler option" where
  "get_handler_for s name prefix =
     (if ad_traits s name \<noteq> None then
        (if prefix = ''get_'' then Some (SelfGet name) else Some (SelfSet name))
      else None)"

text \<open>
  The loop over the sub-adapters: every adapter visited gets the item and the drop; the
  first that accepts and has the trait supplies the handler. The result says whether
  the loop ended by \<open>break\<close> (a cacheable handler), by \<open>return handler()\<close> (a handler
  that is not cacheable) or ran to its end.
\<close>

datatype scan = Cacheable handler | NotCacheable handler | NoAdapter

fun scan_adapters ::
  "adapter_state \<Rightarrow> ref list \<Rightarrow> string \<Rightarrow> string \<Rightarrow> obj \<Rightarrow> obj option \<Rightarrow> scan \<times> adapter_state" where
  "scan_adapters s [] prefix trait_name item dr = (NoAdapter, s)"
| "scan_adapters s (a # as) prefix trait_name item dr =
     (let s1 = s\<lparr>subs := (subs s)(a := (subs s a)\<lparr>sa_item := Some item, sa_drop := dr\<rparr>)\<rparr>;
          adapter = subs s1 a
      in
      if accepts adapter item dr \<and> sa_traits adapter trait_name \<noteq> None then
        let handler = (if prefix = ''get_'' then SubGet a trait_name else SubSet a trait_name)
        in if is_cacheable adapter then (Cacheable handler, s1) else (NotCacheable handler, s1)
      else scan_adapters s1 as prefix trait_name item dr)"

text \<open>The loop over the classes of the item's mro, and the generic trait after it.\<close>

fun mro_handler :: "adapter_state \<Rightarrow> string list \<Rightarrow> string \<Rightarrow> string \<Rightarrow> handler option" where
  "mro_handler s [] trait_name prefix = get_handler_for s trait_name prefix"
| "mro_handler s (klass # ks) trait_name prefix =
     (case get_handler_for s (klass @ ''_'' @ trait_name) prefix of
        Some h \<Rightarrow> Some h
      | None \<Rightarrow> mro_handler s ks trait_name prefix)"

text \<open>
  "Check to see if the item itself implements the required trait": \<open>Some\<close> of what is
  returned, or \<open>None\<close> when the adapter is to handle the request.
\<close>

definition item_result ::
  "adapter_state \<Rightarrow> string \<Rightarrow> string \<Rightarrow> obj \<Rightarrow> obj option \<Rightarrow> ((error + pyval) \<times> adapter_state) option" where
  "item_result s prefix trait_name item dr =
     (let ob = objects s item; lci_name = ''list_canvas_item_'' @ trait_name in
      if implements_item ob then
        (case obj_traits ob lci_name of
           None \<Rightarrow> None
         | Some g \<Rightarrow>
             if prefix = ''get_'' then
               (if trait_name = ''can_drop'' \<and> obj_traits ob ''list_canvas_item_drop'' \<noteq> None
                then Some (Inr (g dr),
                           s\<lparr>objects := (objects s)(item := ob\<lparr>list_canvas_item_drop := dr\<rparr>)\<rparr>)
                else Some (Inr (g (list_canvas_item_drop ob)), s))
             else Some (Inr VNone, s\<lparr>fired_log := fired_log s @ [ItemFired item lci_name]\<rparr>))
      else None)"

text \<open>\<open>self.cache.get( key )\<close> followed by \<open>handler is not None\<close>.\<close>

definition cache_get :: "(string \<rightharpoonup> handler option) \<Rightarrow> string \<Rightarrow> handler option" where
  "cache_get m key = (case m key of None \<Rightarrow> None | Some h \<Rightarrow> h)"

text \<open>Calling what was resolved: calling \<open>None\<close> raises.\<close>

definition call_handler :: "adapter_state \<Rightarrow> handler option \<Rightarrow> (error + pyval) \<times> adapter_state" where
  "call_handler s h = (case h of None \<Rightarrow> (Inl TypeError, s) | Some f \<Rightarrow> invoke s f)"

text \<open>\<open>ListCanvasAdapter._result_for\<close>\<close>

definition result_for ::
  "adapter_state \<Rightarrow> string \<Rightarrow> obj \<Rightarrow> obj option \<Rightarrow> (error + pyval) \<times> adapter_state" where
  "result_for s name item dr =
     (let prefix = take 4 name; trait_name = drop 4 name in
      case item_result s prefix trait_name item dr of
        Some res \<Rightarrow> res
      | None \<Rightarrow>
          let s1 = s\<lparr>ad_item := Some item, ad_drop := dr\<rparr>;
              key = class_name (objects s1 item) @ '':'' @ name
          in
          (case cache_get (cache s1) key of
             Some h \<Rightarrow> invoke s1 h
           | None \<Rightarrow>
               (case scan_adapters s1 (adapters s1) prefix trait_name item dr of
                  (NotCacheable h, s2) \<Rightarrow> invoke s2 h
                | (Cacheable h, s2) \<Rightarrow>
                    call_handler (s2\<lparr>cache := (cache s2)(key \<mapsto> Some h)\<rparr>) (Some h)
                | (NoAdapter, s2) \<Rightarrow>
                    let handler = mro_handler s2 (mro_names (objects s2 item)) trait_name prefix
                    in call_handler (s2\<lparr>cache := (cache s2)(key \<mapsto> handler)\<rparr>) handler)))"

text \<open>The resolution alone, without the cache: the sub-adapter scan, the mro lookup, the generic trait.\<close>

definition resolve_fresh ::
  "adapter_state \<Rightarrow> string \<Rightarrow> obj \<Rightarrow> obj option \<Rightarrow> (error + pyval) \<times> adapter_state" where
  "resolve_fresh s name item dr = result_for (s\<lparr>cache := Map.empty\<rparr>) name item dr"

text \<open>\<open>ListCanvasAdapter._on_adapters_changed\<close>\<close>

definition on_adapters_changed :: "adapter_state \<Rightarrow> ref list \<Rightarrow> adapter_state" where
  "on_adapters_changed s as = s\<lparr>adapters := as, cache := Map.empty\<rparr>"

subsection \<open>The adapter methods called by the editor\<close>

definition get_theme_active :: "adapter_state \<Rightarrow> obj \<Rightarrow> (error + pyval) \<times> adapter_state" where
  "get_theme_active s item = result_for s ''get_theme_active'' item None"

text \<open>\<open>a or b\<close>: \<open>a\<close> when it is true, else \<open>b\<close>, which is evaluated only then.\<close>

definition get_theme_inactive :: "adapter_state \<Rightarrow> obj \<Rightarrow> (error + pyval) \<times> adapter_state" where
  "get_theme_inactive s item =
     (case result_for s ''get_theme_inactive'' item None of
        (Inl e, s1) \<Rightarrow> (Inl e, s1)
      | (Inr v, s1) \<Rightarrow>
          if truthy v then (Inr v, s1) else result_for s1 ''get_theme_active'' item None)"

definition get_theme_hover :: "adapter_state \<Rightarrow> obj \<Rightarrow> (error + pyval) \<times> adapter_state" where
  "get_theme_hover s item =
     (case result_for s ''get_theme_hover'' item None of
        (Inl e, s1) \<Rightarrow> (Inl e, s1)
      | (Inr v, s1) \<Rightarrow>
          if truthy v then (Inr v, s1)
          else
            (case result_for s1 ''get_theme_inactive'' item None of
               (Inl e, s2) \<Rightarrow> (Inl e, s2)
             | (Inr v, s2) \<Rightarrow>
                 if truthy v then (Inr v, s2) else result_for s2 ''get_theme_active'' item None))"

definition get_title :: "adapter_state \<Rightarrow> obj \<Rightarrow> (error + pyval) \<times> adapter_state" where
  "get_title s item = result_for s ''get_title'' item None"

section \<open>What the specification says, and sample canvases\<close>

subsection \<open>Guide lines, as specified\<close>

text \<open>The left and right edge of an item, and its top and bottom edge.\<close>

definition x_edges :: "item \<Rightarrow> int set" where
  "x_edges it =
     (case (position it, size' it) of (Inr (x, y), Inr (dx, dy)) \<Rightarrow> {x, x + dx} | _ \<Rightarrow> {})"

definition y_edges :: "item \<Rightarrow> int set" where
  "y_edges it =
     (case (position it, size' it) of (Inr (x, y), Inr (dx, dy)) \<Rightarrow> {y, y + dy} | _ \<Rightarrow> {})"

text \<open>The edges of the items of a list other than the item being dragged.\<close>

definition guide_xs_spec :: "canvas \<Rightarrow> ref list \<Rightarrow> int set" where
  "guide_xs_spec c rs = (\<Union>r \<in> {r \<in> set rs. Some r \<noteq> drag_item c}. x_edges (heap c r))"

definition guide_ys_spec :: "canvas \<Rightarrow> ref list \<Rightarrow> int set" where
  "guide_ys_spec c rs = (\<Union>r \<in> {r \<in> set rs. Some r \<noteq> drag_item c}. y_edges (heap c r))"

subsection \<open>When guide lines are to be drawn, as specified\<close>

definition guides_wanted :: "canvas \<Rightarrow> bool" where
  "guides_wanted c =
     (case guide_visible (guide_info c) of
        Always \<Rightarrow> True
      | Never \<Rightarrow> False
      | Drag \<Rightarrow> canvas_state c = ''dragging'' \<and> items c \<noteq> [])"

text \<open>
  The guide lines are drawn: the lines of the guide-line step are, in this order, one
  vertical line across the painted height at each x key and one horizontal line across
  the painted width at each y key of the dictionaries \<open>_guide_lines\<close> returns, and no
  other line.
\<close>

definition guide_lines_drawn :: "canvas \<Rightarrow> painting \<Rightarrow> bool" where
  "guide_lines_drawn c p =
     (case guide_lines c of
        Inl e \<Rightarrow> False
      | Inr (xs, ys) \<Rightarrow>
          let (wdx, wdy) = paint_size c in
          filter is_line (guide_ops p) =
            map (\<lambda>x. DrawLine x 0 x wdy) (map fst xs) @ map (\<lambda>y. DrawLine 0 y wdx y) (map fst ys))"

text \<open>
  The guide lines of a canvas: a vertical line at the two canvas boundaries and at the
  left and right edge of every item but the dragged one, a horizontal line at the two
  boundaries and at the top and bottom edge of every such item.
\<close>

definition guide_line_set :: "canvas \<Rightarrow> dc_op set" where
  "guide_line_set c =
     (let (wdx, wdy) = paint_size c in
      (\<lambda>x. DrawLine x 0 x wdy) ` ({0, fst (canvas_size c) - 1} \<union> guide_xs_spec c (items c)) \<union>
      (\<lambda>y. DrawLine 0 y wdx y) ` ({0, snd (canvas_size c) - 1} \<union> guide_ys_spec c (items c)))"

subsection \<open>A canvas with two items\<close>

definition theme0 :: theme where
  "theme0 = \<lparr>theme_name = ''default_inactive'', slice = \<lparr>xtop = 20, xbottom = 5\<rparr>\<rparr>"

definition item_a :: item where
  "item_a = \<lparr>object = 100, state = ''inactive'', theme = Some theme0,
     control = Some \<lparr>w_position = (10, 20), w_size = (100, 50), w_cursor = CURSOR_ARROW\<rparr>,
     ui = Some UiOpen, best_size = (120, 80)\<rparr>"

definition item_b :: item where
  "item_b = \<lparr>object = 101, state = ''inactive'', theme = Some theme0,
     control = Some \<lparr>w_position = (200, 20), w_size = (80, 60), w_cursor = CURSOR_ARROW\<rparr>,
     ui = Some UiOpen, best_size = (120, 80)\<rparr>"

definition adapter0 :: adapter_answers where
  "adapter0 = \<lparr>get_position = (\<lambda>_. (0, 0)), get_size = (\<lambda>_. (0, 0)),
     get_can_resize = (\<lambda>_. True), get_can_move = (\<lambda>_. True),
     get_theme = (\<lambda>_ _. Some theme0)\<rparr>"

definition canvas0 :: canvas where
  "canvas0 = \<lparr>scrollable = False, items = [0, 1], active_item = None, adapter = adapter0,
     snap_info = \<lparr>distance = 8\<rparr>,
     guide_info = \<lparr>guide_visible = Drag, guide_snapping = True, guide_color = 13158600,
                   guide_style = Solid\<rparr>,
     grid_info = \<lparr>grid_visible = Never, grid_snapping = True, grid_color = 13158600,
                  grid_style = Solid, grid_size = 50, grid_offset = 0\<rparr>,
     canvas_position = (0, 0), canvas_size = (300, 200), client_size = (300, 200),
     virtual_size = (300, 200), view_start = (0, 0), scroll_ppu = (1, 1),
     canvas_state = ''normal'', drag_item = None, drag_info = None, drag_guides = None,
     heap = (\<lambda>r. if r = 0 then item_a else item_b), trace = []\<rparr>"

text \<open>The same canvas while item 0 is dragged.\<close>

definition canvas_drag :: canvas where
  "canvas_drag = canvas0\<lparr>canvas_state := ''dragging'', drag_item := Some 0,
     drag_guides := Some ([(0, ()), (299, ()), (200, ()), (280, ())],
                          [(0, ()), (199, ()), (20, ()), (80, ())])\<rparr>"

subsection \<open>Grid lines and guide lines, as specified\<close>

text \<open>A coordinate on a grid line: the offset plus a multiple of the cell size, grid snapping on.\<close>

definition on_grid_line :: "grid_info \<Rightarrow> int \<Rightarrow> bool" where
  "on_grid_line gi v = (grid_snapping gi \<and> grid_size gi dvd (v - grid_offset gi))"

text \<open>A coordinate on a guide line of the current drag-guide set, guide snapping on.\<close>

definition on_guide_x :: "canvas \<Rightarrow> int \<Rightarrow> bool" where
  "on_guide_x c v =
     (guide_snapping (guide_info c) \<and>
      (case drag_guides c of None \<Rightarrow> False | Some (xs, ys) \<Rightarrow> v \<in> set (map fst xs)))"

definition on_guide_y :: "canvas \<Rightarrow> int \<Rightarrow> bool" where
  "on_guide_y c v =
     (guide_snapping (guide_info c) \<and>
      (case drag_guides c of None \<Rightarrow> False | Some (xs, ys) \<Rightarrow> v \<in> set (map fst ys)))"

subsection \<open>The mode for a cursor position, as specified\<close>

text \<open>
  The cases in the order the specification lists them, the first that applies deciding:
  \<open>rs\<close> and \<open>mv\<close> say whether the adapter permits resizing and moving, \<open>xt\<close> and
  \<open>xb\<close> are the theme's \<open>slice.xtop\<close> and \<open>slice.xbottom\<close>.
\<close>

definition cursor_mode_spec ::
  "bool \<Rightarrow> bool \<Rightarrow> int \<Rightarrow> int \<Rightarrow> int \<Rightarrow> int \<Rightarrow> int \<Rightarrow> int \<Rightarrow> int" where
  "cursor_mode_spec rs mv xt xb x y dx dy =
     (if \<not> (0 \<le> x \<and> x < dx \<and> 0 \<le> y \<and> y < dy) then 0
      else if rs \<and> x < 4 \<and> y < 4 then 15
      else if rs \<and> x < 4 \<and> y \<ge> dy - 4 then 7
      else if rs \<and> x < 4 then 5
      else if rs \<and> x \<ge> dx - 4 \<and> y < 4 then 11
      else if rs \<and> x \<ge> dx - 4 \<and> y \<ge> dy - 4 then 3
      else if rs \<and> x \<ge> dx - 4 then 1
      else if rs \<and> y < 4 then 10
      else if rs \<and> y \<ge> dy - 4 then 2
      else if mv \<and> (y < xt \<or> y \<ge> dy - xb) then 12
      else 0)"

subsection \<open>Activation, as specified\<close>

text \<open>The adapter notifications among the recorded events.\<close>

fun is_notification :: "event \<Rightarrow> bool" where
  "is_notification (SetDeactivated ob) = True"
| "is_notification (SetActivated ob) = True"
| "is_notification _ = False"

text \<open>The only item on the canvas in state \<open>'active'\<close> is the active item.\<close>

definition single_active :: "canvas \<Rightarrow> bool" where
  "single_active c =
     (\<forall>r \<in> set (items c). state (heap c r) = ''active'' \<longrightarrow> active_item c = Some r)"

text \<open>The items on the canvas in state \<open>'active'\<close>.\<close>

definition active_items :: "canvas \<Rightarrow> ref list" where
  "active_items c = filter (\<lambda>r. state (heap c r) = ''active'') (remdups (items c))"

subsection \<open>Replacing items, as specified\<close>

text \<open>A disposed item: its control is destroyed and its Traits UI, if any, is closed.\<close>

definition disposed :: "item \<Rightarrow> bool" where
  "disposed it = (control it = None \<and> ui it \<noteq> Some UiOpen)"

text \<open>The end of the replaced slice: the length of the list when \<open>j < 0\<close>.\<close>

definition slice_end :: "'a list \<Rightarrow> int \<Rightarrow> int" where
  "slice_end xs j = (if j < 0 then int (length xs) else j)"

text \<open>The active item, when there is one, is an item of the canvas.\<close>

definition active_on_canvas :: "canvas \<Rightarrow> bool" where
  "active_on_canvas c = (case active_item c of None \<Rightarrow> True | Some a \<Rightarrow> a \<in> set (items c))"

subsection \<open>A canvas with three items, and two more items to add\<close>

definition item_n :: "nat \<Rightarrow> item" where
  "item_n k = \<lparr>object = 100 + k, state = ''inactive'', theme = Some theme0,
     control = Some \<lparr>w_position = (0, 0), w_size = (50, 40), w_cursor = CURSOR_ARROW\<rparr>,
     ui = Some UiOpen, best_size = (50, 40)\<rparr>"

definition canvas3 :: canvas where
  "canvas3 = canvas0\<lparr>items := [0, 1, 2], active_item := Some 2,
     heap := (\<lambda>r. if r = 0 then item_a else if r = 1 then item_b else item_n r)\<rparr>"

subsection \<open>Theme values, and a sample adapter\<close>

text \<open>What a theme trait (\<open>ATheme\<close>) holds: \<open>None\<close> or a theme.\<close>

fun is_atheme :: "pyval \<Rightarrow> bool" where
  "is_atheme VNone = True"
| "is_atheme (VTheme t) = True"
| "is_atheme _ = False"

definition theme_active0 :: theme where
  "theme_active0 = \<lparr>theme_name = ''default_active'', slice = \<lparr>xtop = 20, xbottom = 5\<rparr>\<rparr>"

definition theme_hover0 :: theme where
  "theme_hover0 = \<lparr>theme_name = ''default_hover'', slice = \<lparr>xtop = 20, xbottom = 5\<rparr>\<rparr>"

text \<open>An object of class \<open>Person\<close> that does not implement \<open>IListCanvasItem\<close>.\<close>

definition person :: app_object where
  "person = \<lparr>class_name = ''Person'', mro_names = [''Person'', ''HasTraits'', ''object''],
     implements_item = False, obj_traits = Map.empty, list_canvas_item_drop = None\<rparr>"

text \<open>
  Two sub-adapters that supply a title. The first accepts the one object 7 only, so its
  \<open>accepts\<close> does not depend on the type of the item alone and it is not cacheable;
  the second accepts every item and is cacheable.
\<close>

definition sub_special :: sub_adapter where
  "sub_special = \<lparr>sa_item = None, sa_drop = None, accepts = (\<lambda>it dr. it = 7),
     is_cacheable = False, sa_traits = [''title'' \<mapsto> (\<lambda>it dr. VStr ''special'')]\<rparr>"

definition sub_general :: sub_adapter where
  "sub_general = \<lparr>sa_item = None, sa_drop = None, accepts = (\<lambda>it dr. True),
     is_cacheable = True, sa_traits = [''title'' \<mapsto> (\<lambda>it dr. VStr ''general'')]\<rparr>"

text \<open>An adapter with no inactive theme of its own, and its sub-adapters.\<close>

definition adapter_st :: adapter_state where
  "adapter_st = \<lparr>ad_item = None, ad_drop = None, adapters = [0, 1], cache = Map.empty,
     ad_traits = [''theme_active'' \<mapsto> (\<lambda>it dr. VTheme theme_active0),
                  ''theme_inactive'' \<mapsto> (\<lambda>it dr. VNone),
                  ''theme_hover'' \<mapsto> (\<lambda>it dr. VNone),
                  ''title'' \<mapsto> (\<lambda>it dr. VStr '''')],
     subs = (\<lambda>r. if r = 0 then sub_special else sub_general),
     objects = (\<lambda>ob. person), fired_log = []\<rparr>"

text \<open>The same adapter with an inactive theme, and with a hover theme as well.\<close>

definition adapter_st2 :: adapter_state where
  "adapter_st2 = adapter_st\<lparr>ad_traits :=
     (ad_traits adapter_st)(''theme_inactive'' \<mapsto> (\<lambda>it dr. VTheme theme0))\<rparr>"

definition adapter_st3 :: adapter_state where
  "adapter_st3 = adapter_st2\<lparr>ad_traits :=
     (ad_traits adapter_st2)(''theme_hover'' \<mapsto> (\<lambda>it dr. VTheme theme_hover0))\<rparr>"

subsection \<open>The initial position, as specified\<close>

text \<open>The rectangle of an item (of an item without its control: empty, at the origin).\<close>

record rect =
  rx :: int
  ry :: int
  rw :: int
  rh :: int

definition rect_of :: "item \<Rightarrow> rect" where
  "rect_of it =
     (case control it of
        None \<Rightarrow> \<lparr>rx = 0, ry = 0, rw = 0, rh = 0\<rparr>
      | Some w \<Rightarrow> \<lparr>rx = fst (w_position w), ry = snd (w_position w),
                    rw = fst (w_size w), rh = snd (w_size w)\<rparr>)"

definition rects :: "canvas \<Rightarrow> rect list" where
  "rects c = map (\<lambda>r. rect_of (heap c r)) (items c)"

text \<open>
  The bottom-most row is the row of the items with the greatest \<open>y\<close>, and the row at
  \<open>y = 0\<close> when no item is below it. Its right end is the greatest right edge of its
  items, the next row starts at the greatest bottom edge of its items; the row at
  \<open>y = 0\<close> has at least the right end 0 and the bottom 0.
\<close>

definition row_y :: "rect list \<Rightarrow> int" where
  "row_y gs = Max (set (0 # map ry gs))"

definition row_items :: "rect list \<Rightarrow> rect list" where
  "row_items gs = filter (\<lambda>g. ry g = row_y gs) gs"

definition row_right :: "rect list \<Rightarrow> int" where
  "row_right gs =
     Max (set ((if row_y gs = 0 then [0] else []) @ map (\<lambda>g. rx g + rw g) (row_items gs)))"

definition row_bottom :: "rect list \<Rightarrow> int" where
  "row_bottom gs =
     Max (set ((if row_y gs = 0 then [0] else []) @ map (\<lambda>g. ry g + rh g) (row_items gs)))"

text \<open>
  An item of width \<open>dx\<close> goes to the right end of the bottom-most row when it fits into
  the canvas width \<open>cdx\<close> there, and otherwise to the left edge of the next row.
\<close>

definition initial_position_spec :: "rect list \<Rightarrow> int \<Rightarrow> int \<Rightarrow> int \<times> int" where
  "initial_position_spec gs cdx dx =
     (if row_right gs + dx > cdx then (0, row_bottom gs) else (row_right gs, row_y gs))"

text \<open>
  What the loop of \<open>initial_position_for\<close> has computed from the accumulator
  \<open>(xm, ym, yn)\<close> after the rectangles \<open>gs\<close>.
\<close>

definition row_scan :: "rect list \<Rightarrow> int \<times> int \<times> int \<Rightarrow> int \<times> int \<times> int \<Rightarrow> bool" where
  "row_scan gs a b =
     (case (a, b) of ((xm, ym, yn), (xm', ym', yn')) \<Rightarrow>
        ym \<le> ym' \<and> (\<forall>g \<in> set gs. ry g \<le> ym') \<and>
        (ym' = ym \<or> (\<exists>g \<in> set gs. ry g = ym')) \<and>
        (\<forall>g \<in> set gs. ry g = ym' \<longrightarrow> rx g + rw g \<le> xm' \<and> ry g + rh g \<le> yn') \<and>
        (ym' = ym \<longrightarrow> xm \<le> xm' \<and> yn \<le> yn') \<and>
        ((ym' = ym \<and> xm' = xm) \<or> (\<exists>g \<in> set gs. ry g = ym' \<and> rx g + rw g = xm')) \<and>
        ((ym' = ym \<and> yn' = yn) \<or> (\<exists>g \<in> set gs. ry g = ym' \<and> ry g + rh g = yn')))"

section \<open>Lemmas about the canvas\<close>

lemma bindE_Inr_iff: "bindE m f = Inr b \<longleftrightarrow> (\<exists>a. m = Inr a \<and> f a = Inr b)"
  by (cases m) (simp_all add: bindE_def)

lemma bindE_Inr [simp]: "bindE (Inr a) f = f a"
  by (simp add: bindE_def)

lemma bindE_Inl [simp]: "bindE (Inl e) f = Inl e"
  by (simp add: bindE_def)

lemma position_Inr_iff: "position it = Inr p \<longleftrightarrow> (\<exists>w. control it = Some w \<and> p = w_position w)"
  by (auto simp: position_def split: option.splits)

lemma size_Inr_iff: "size' it = Inr p \<longleftrightarrow> (\<exists>w. control it = Some w \<and> p = w_size w)"
  by (auto simp: size'_def split: option.splits)

lemma initial_position_loop_total:
  "\<forall>r \<in> set rs. control (heap c r) \<noteq> None \<Longrightarrow> \<exists>t. initial_position_loop c rs acc = Inr t"
proof (induction rs arbitrary: acc)
  case Nil
  then show ?case by (cases acc) simp
next
  case (Cons r rs)
  obtain xmax ymax ynext where acc: "acc = (xmax, ymax, ynext)" by (cases acc) auto
  from Cons.prems obtain w where w: "control (heap c r) = Some w" by auto
  from Cons.prems have rest: "\<forall>r \<in> set rs. control (heap c r) \<noteq> None" by simp
  show ?case
    using Cons.IH [OF rest] 
    by (simp add: acc position_def size'_def w split_beta)
qed

lemma guide_xs_spec_Nil [simp]: "guide_xs_spec c [] = {}"
  by (simp add: guide_xs_spec_def)

lemma guide_ys_spec_Nil [simp]: "guide_ys_spec c [] = {}"
  by (simp add: guide_ys_spec_def)

lemma guide_xs_spec_Cons:
  "guide_xs_spec c (r # rs) =
     (if Some r \<noteq> drag_item c then x_edges (heap c r) else {}) \<union> guide_xs_spec c rs"
  by (auto simp: guide_xs_spec_def)

lemma guide_ys_spec_Cons:
  "guide_ys_spec c (r # rs) =
     (if Some r \<noteq> drag_item c then y_edges (heap c r) else {}) \<union> guide_ys_spec c rs"
  by (auto simp: guide_ys_spec_def)

lemma guide_lines_loop_keys:
  "guide_lines_loop c rs (xs, ys) = Inr (xs', ys') \<Longrightarrow>
     fst ` set xs' = fst ` set xs \<union> guide_xs_spec c rs \<and>
     fst ` set ys' = fst ` set ys \<union> guide_ys_spec c rs"
proof (induction rs arbitrary: xs ys)
  case Nil
  then show ?case by simp
next
  case (Cons r rs)
  show ?case
  proof (cases "Some r \<noteq> drag_item c")
    case False
    with Cons.prems have "guide_lines_loop c rs (xs, ys) = Inr (xs', ys')" by simp
    from Cons.IH [OF this] False show ?thesis
      by (simp add: guide_xs_spec_Cons guide_ys_spec_Cons)
  next
    case True
    with Cons.prems obtain w where w: "control (heap c r) = Some w"
      by (cases "control (heap c r)") (auto simp: position_def)
    obtain x y where p: "w_position w = (x, y)" by (cases "w_position w") auto
    obtain dx dy where s: "w_size w = (dx, dy)" by (cases "w_size w") auto
    from Cons.prems True have
      "guide_lines_loop c rs
         (AList.update (x + dx) () (AList.update x () xs),
          AList.update (y + dy) () (AList.update y () ys)) = Inr (xs', ys')"
      by (simp add: position_def size'_def w p s)
    from Cons.IH [OF this]
    have "fst ` set xs' = fst ` set (AList.update (x + dx) () (AList.update x () xs)) \<union> guide_xs_spec c rs"
      and "fst ` set ys' = fst ` set (AList.update (y + dy) () (AList.update y () ys)) \<union> guide_ys_spec c rs"
      by simp_all
    moreover have "x_edges (heap c r) = {x, x + dx}" "y_edges (heap c r) = {y, y + dy}"
      by (simp_all add: x_edges_def y_edges_def position_def size'_def w p s)
    ultimately show ?thesis
      using Cons.IH True by (auto simp: guide_xs_spec_Cons guide_ys_spec_Cons dom_update)
  qed
qed

lemma guide_lines_loop_distinct:
  "guide_lines_loop c rs (xs, ys) = Inr (xs', ys') \<Longrightarrow>
     distinct (map fst xs) \<Longrightarrow> distinct (map fst ys) \<Longrightarrow>
     distinct (map fst xs') \<and> distinct (map fst ys')"
proof (induction rs arbitrary: xs ys)
  case Nil
  then show ?case by simp
next
  case (Cons r rs)
  show ?case
  proof (cases "Some r \<noteq> drag_item c")
    case False
    with Cons.prems have "guide_lines_loop c rs (xs, ys) = Inr (xs', ys')" by simp
    from Cons.IH [OF this] Cons.prems show ?thesis by simp
  next
    case True
    with Cons.prems obtain w where w: "control (heap c r) = Some w"
      by (cases "control (heap c r)") (auto simp: position_def)
    obtain x y where p: "w_position w = (x, y)" by (cases "w_position w") auto
    obtain dx dy where s: "w_size w = (dx, dy)" by (cases "w_size w") auto
    from Cons.prems True have
      "guide_lines_loop c rs
         (AList.update (x + dx) () (AList.update x () xs),
          AList.update (y + dy) () (AList.update y () ys)) = Inr (xs', ys')"
      by (simp add: position_def size'_def w p s)
    from Cons.IH [OF this] Cons.prems show ?thesis
      by (simp add: distinct_update)
  qed
qed

lemma guide_lines_loop_total:
  "\<forall>r \<in> set rs. Some r \<noteq> drag_item c \<longrightarrow> control (heap c r) \<noteq> None \<Longrightarrow>
     \<exists>g. guide_lines_loop c rs acc = Inr g"
proof (induction rs arbitrary: acc)
  case Nil
  then show ?case by (cases acc) simp
next
  case (Cons r rs)
  obtain xs ys where acc: "acc = (xs, ys)" by (cases acc) auto
  from Cons.prems
  have rest: "\<forall>r \<in> set rs. Some r \<noteq> drag_item c \<longrightarrow> control (heap c r) \<noteq> None" by simp
  show ?case
  proof (cases "Some r \<noteq> drag_item c")
    case False
    with Cons.IH [OF rest] show ?thesis by (simp add: acc)
  next
    case True
    with Cons.prems obtain w where w: "control (heap c r) = Some w" by auto
    show ?thesis
      using Cons.IH [OF rest] True by (simp add: acc position_def size'_def w split_beta)
  qed
qed

lemma guide_lines_keys:
  assumes "guide_lines c = Inr (xs, ys)"
  shows "fst ` set xs = {0, fst (canvas_size c) - 1} \<union> guide_xs_spec c (items c)"
    and "fst ` set ys = {0, snd (canvas_size c) - 1} \<union> guide_ys_spec c (items c)"
    and "distinct (map fst xs)" and "distinct (map fst ys)"
proof -
  obtain dx dy where sz: "canvas_size c = (dx, dy)" by (cases "canvas_size c") auto
  let ?xs0 = "AList.update (dx - 1) () [(0, ())]"
  let ?ys0 = "AList.update (dy - 1) () [(0, ())]"
  from assms have loop: "guide_lines_loop c (items c) (?xs0, ?ys0) = Inr (xs, ys)"
    by (simp add: guide_lines_def sz)
  have k: "fst ` set ?xs0 = {0, dx - 1}" "fst ` set ?ys0 = {0, dy - 1}"
    by (auto simp: dom_update)
  have d: "distinct (map fst ?xs0)" "distinct (map fst ?ys0)"
    by (simp_all add: distinct_update)
  from guide_lines_loop_keys [OF loop] k
  show "fst ` set xs = {0, fst (canvas_size c) - 1} \<union> guide_xs_spec c (items c)"
    and "fst ` set ys = {0, snd (canvas_size c) - 1} \<union> guide_ys_spec c (items c)"
    by (simp_all add: sz)
  from guide_lines_loop_distinct [OF loop d]
  show "distinct (map fst xs)" and "distinct (map fst ys)" by simp_all
qed

lemma guide_lines_total:
  "\<forall>r \<in> set (items c). Some r \<noteq> drag_item c \<longrightarrow> control (heap c r) \<noteq> None \<Longrightarrow>
     \<exists>g. guide_lines c = Inr g"
  using guide_lines_loop_total [of "items c" c]
  by (simp add: guide_lines_def split_beta)


lemma guide_lines_has_zero:
  assumes "guide_lines c = Inr (xs, ys)"
  shows "0 \<in> fst ` set xs"
  using guide_lines_keys(1) [OF assms] by simp

lemma filter_vertical_lines:
  "filter is_line (map (\<lambda>x. DrawLine x 0 x wdy) ks) = map (\<lambda>x. DrawLine x 0 x wdy) ks"
  by (induction ks) simp_all

lemma filter_horizontal_lines:
  "filter is_line (map (\<lambda>y. DrawLine 0 y wdx y) ks) = map (\<lambda>y. DrawLine 0 y wdx y) ks"
  by (induction ks) simp_all

lemma guides_wanted_iff:
  "guides_wanted c \<longleftrightarrow>
     guide_visible (guide_info c) = Always \<or>
     ((guide_visible (guide_info c) = Drag \<and> canvas_state c = ''dragging'') \<and> length (items c) > 0)"
  by (cases "guide_visible (guide_info c)") (simp_all add: guides_wanted_def)

lemma paint_guides_wanted:
  assumes "paint_guides c wdx wdy = Inr ops" and "guides_wanted c"
  shows "\<exists>xs ys. guide_lines c = Inr (xs, ys) \<and>
           filter is_line ops =
             map (\<lambda>x. DrawLine x 0 x wdy) (map fst xs) @ map (\<lambda>y. DrawLine 0 y wdx y) (map fst ys)"
proof -
  from assms(2) have cond: "guide_visible (guide_info c) = Always \<or>
      ((guide_visible (guide_info c) = Drag \<and> canvas_state c = ''dragging'') \<and> length (items c) > 0)"
    by (simp only: guides_wanted_iff)
  with assms(1) obtain xs ys where g: "guide_lines c = Inr (xs, ys)"
    and ops: "ops = SetPen (Pen (guide_color (guide_info c)) 1 (guide_style (guide_info c)))
               # map (\<lambda>x. DrawLine x 0 x wdy) (map fst xs)
               @ map (\<lambda>y. DrawLine 0 y wdx y) (map fst ys)"
    by (auto simp: paint_guides_def Let_def bindE_Inr_iff)
  have "filter is_line ops =
          map (\<lambda>x. DrawLine x 0 x wdy) (map fst xs) @ map (\<lambda>y. DrawLine 0 y wdx y) (map fst ys)"
    unfolding ops by (simp only: filter.simps filter_append is_line.simps if_False
        filter_vertical_lines filter_horizontal_lines)
  with g show ?thesis by blast
qed

lemma paint_guides_not_wanted:
  assumes "paint_guides c wdx wdy = Inr ops" and "\<not> guides_wanted c"
  shows "ops = []"
proof -
  from assms(2) have "\<not> (guide_visible (guide_info c) = Always \<or>
      ((guide_visible (guide_info c) = Drag \<and> canvas_state c = ''dragging'') \<and> length (items c) > 0))"
    by (simp add: guides_wanted_iff)
  with assms(1) show ?thesis by (auto simp: paint_guides_def Let_def split: if_splits)
qed

lemma canvas_paint_guide_ops:
  assumes "canvas_paint c = Inr p"
  shows "paint_guides c (fst (paint_size c)) (snd (paint_size c)) = Inr (guide_ops p)"
proof -
  obtain wdx wdy where ps: "paint_size c = (wdx, wdy)" by (cases "paint_size c") auto
  from assms obtain ops where "paint_guides c wdx wdy = Inr ops" and "guide_ops p = ops"
    by (auto simp: canvas_paint_def ps bindE_Inr_iff)
  then show ?thesis by (simp add: ps)
qed

lemma canvas_paint_drawn:
  assumes "canvas_paint c = Inr p"
  shows "guide_lines_drawn c p = guides_wanted c"
    and "guide_lines_drawn c p \<Longrightarrow> set (filter is_line (guide_ops p)) = guide_line_set c"
    and "\<not> guide_lines_drawn c p \<Longrightarrow> guide_ops p = []"
proof -
  obtain wdx wdy where ps: "paint_size c = (wdx, wdy)" by (cases "paint_size c") auto
  from canvas_paint_guide_ops [OF assms]
  have pg: "paint_guides c wdx wdy = Inr (guide_ops p)" by (simp add: ps)
  show d: "guide_lines_drawn c p = guides_wanted c"
  proof (cases "guides_wanted c")
    case True
    from paint_guides_wanted [OF pg True] show ?thesis
      using True by (auto simp: guide_lines_drawn_def ps)
  next
    case False
    from paint_guides_not_wanted [OF pg False] have e: "guide_ops p = []" .
    have "\<not> guide_lines_drawn c p"
    proof (cases "guide_lines c")
      case (Inl e)
      then show ?thesis by (simp add: guide_lines_drawn_def)
    next
      case (Inr g)
      obtain xs ys where g: "g = (xs, ys)" by (cases g) auto
      from guide_lines_has_zero [of c xs ys] Inr g have "xs \<noteq> []" by auto
      with Inr g e show ?thesis by (simp add: guide_lines_drawn_def ps)
    qed
    with False show ?thesis by simp
  qed
  show "guide_ops p = []" if "\<not> guide_lines_drawn c p"
    using that d paint_guides_not_wanted [OF pg] by simp
  show "set (filter is_line (guide_ops p)) = guide_line_set c" if dr: "guide_lines_drawn c p"
  proof -
    from dr d have "guides_wanted c" by simp
    from paint_guides_wanted [OF pg this] obtain xs ys
      where g: "guide_lines c = Inr (xs, ys)"
        and l: "filter is_line (guide_ops p) =
             map (\<lambda>x. DrawLine x 0 x wdy) (map fst xs) @ map (\<lambda>y. DrawLine 0 y wdx y) (map fst ys)"
      by blast
    have "set (filter is_line (guide_ops p)) =
            (\<lambda>x. DrawLine x 0 x wdy) ` fst ` set xs \<union> (\<lambda>y. DrawLine 0 y wdx y) ` fst ` set ys"
      unfolding l by (simp only: set_append set_map)
    also have "\<dots> = guide_line_set c"
      by (simp only: guide_lines_keys(1,2) [OF g] guide_line_set_def ps Let_def prod.case)
    finally show ?thesis .
  qed
qed

lemma canvas_paint_total:
  assumes "grid_size (grid_info c) \<noteq> 0"
    and "\<forall>r \<in> set (items c). Some r \<noteq> drag_item c \<longrightarrow> control (heap c r) \<noteq> None"
  shows "\<exists>p. canvas_paint c = Inr p"
proof -
  obtain wdx wdy where ps: "paint_size c = (wdx, wdy)" by (cases "paint_size c") auto
  from guide_lines_total [OF assms(2)] obtain xs ys where g: "guide_lines c = Inr (xs, ys)"
    by auto
  have "\<exists>ops. paint_grid c wdx wdy = Inr ops"
    using assms(1) by (simp add: paint_grid_def Let_def)
  moreover have "\<exists>ops. paint_guides c wdx wdy = Inr ops"
    by (simp add: paint_guides_def Let_def g)
  ultimately show ?thesis
    by (auto simp: canvas_paint_def ps)
qed


subsection \<open>The initial position\<close>

lemma rect_of_live:
  "control it = Some w \<Longrightarrow>
     position it = Inr (rx (rect_of it), ry (rect_of it)) \<and>
     size' it = Inr (rw (rect_of it), rh (rect_of it))"
  by (simp add: position_def size'_def rect_of_def)

lemma row_scan_iff:
  "row_scan gs (xm, ym, yn) (xm', ym', yn') \<longleftrightarrow>
     ym \<le> ym' \<and> (\<forall>g \<in> set gs. ry g \<le> ym') \<and>
     (ym' = ym \<or> (\<exists>g \<in> set gs. ry g = ym')) \<and>
     (\<forall>g \<in> set gs. ry g = ym' \<longrightarrow> rx g + rw g \<le> xm' \<and> ry g + rh g \<le> yn') \<and>
     (ym' = ym \<longrightarrow> xm \<le> xm' \<and> yn \<le> yn') \<and>
     ((ym' = ym \<and> xm' = xm) \<or> (\<exists>g \<in> set gs. ry g = ym' \<and> rx g + rw g = xm')) \<and>
     ((ym' = ym \<and> yn' = yn) \<or> (\<exists>g \<in> set gs. ry g = ym' \<and> ry g + rh g = yn'))"
  by (simp add: row_scan_def)

lemma row_scan_above:
  assumes gt: "ry g > ym"
    and sc: "row_scan gs (rx g + rw g, ry g, ry g + rh g) (xm', ym', yn')"
  shows "row_scan (g # gs) (xm, ym, yn) (xm', ym', yn')"
proof -
  from sc have
    1: "ry g \<le> ym'" and 2: "\<forall>h \<in> set gs. ry h \<le> ym'"
    and 3: "ym' = ry g \<or> (\<exists>h \<in> set gs. ry h = ym')"
    and 4: "\<forall>h \<in> set gs. ry h = ym' \<longrightarrow> rx h + rw h \<le> xm' \<and> ry h + rh h \<le> yn'"
    and 5: "ym' = ry g \<longrightarrow> rx g + rw g \<le> xm' \<and> ry g + rh g \<le> yn'"
    and 6: "(ym' = ry g \<and> xm' = rx g + rw g) \<or> (\<exists>h \<in> set gs. ry h = ym' \<and> rx h + rw h = xm')"
    and 7: "(ym' = ry g \<and> yn' = ry g + rh g) \<or> (\<exists>h \<in> set gs. ry h = ym' \<and> ry h + rh h = yn')"
    unfolding row_scan_iff by blast+
  have a: "ym \<le> ym'" using gt 1 by simp
  have b: "\<forall>h \<in> set (g # gs). ry h \<le> ym'" using 1 2 by simp
  have c: "ym' = ym \<or> (\<exists>h \<in> set (g # gs). ry h = ym')" using 3 by auto
  have d: "\<forall>h \<in> set (g # gs). ry h = ym' \<longrightarrow> rx h + rw h \<le> xm' \<and> ry h + rh h \<le> yn'"
    using 4 5 by auto
  have e: "ym' = ym \<longrightarrow> xm \<le> xm' \<and> yn \<le> yn'" using gt 1 by simp
  have f: "(ym' = ym \<and> xm' = xm) \<or> (\<exists>h \<in> set (g # gs). ry h = ym' \<and> rx h + rw h = xm')"
    using 6 by auto
  have h: "(ym' = ym \<and> yn' = yn) \<or> (\<exists>h \<in> set (g # gs). ry h = ym' \<and> ry h + rh h = yn')"
    using 7 by auto
  from a b c d e f h show ?thesis unfolding row_scan_iff by blast
qed

lemma row_scan_same:
  assumes eq: "ry g = ym"
    and sc: "row_scan gs (max xm (rx g + rw g), ym, max yn (ry g + rh g)) (xm', ym', yn')"
  shows "row_scan (g # gs) (xm, ym, yn) (xm', ym', yn')"
proof -
  from sc have
    1: "ym \<le> ym'" and 2: "\<forall>h \<in> set gs. ry h \<le> ym'"
    and 3: "ym' = ym \<or> (\<exists>h \<in> set gs. ry h = ym')"
    and 4: "\<forall>h \<in> set gs. ry h = ym' \<longrightarrow> rx h + rw h \<le> xm' \<and> ry h + rh h \<le> yn'"
    and 5: "ym' = ym \<longrightarrow> max xm (rx g + rw g) \<le> xm' \<and> max yn (ry g + rh g) \<le> yn'"
    and 6: "(ym' = ym \<and> xm' = max xm (rx g + rw g)) \<or>
            (\<exists>h \<in> set gs. ry h = ym' \<and> rx h + rw h = xm')"
    and 7: "(ym' = ym \<and> yn' = max yn (ry g + rh g)) \<or>
            (\<exists>h \<in> set gs. ry h = ym' \<and> ry h + rh h = yn')"
    unfolding row_scan_iff by blast+
  have b: "\<forall>h \<in> set (g # gs). ry h \<le> ym'" using eq 1 2 by simp
  have c: "ym' = ym \<or> (\<exists>h \<in> set (g # gs). ry h = ym')" using 3 by auto
  have d: "\<forall>h \<in> set (g # gs). ry h = ym' \<longrightarrow> rx h + rw h \<le> xm' \<and> ry h + rh h \<le> yn'"
    using 4 5 eq by auto
  have e: "ym' = ym \<longrightarrow> xm \<le> xm' \<and> yn \<le> yn'" using 5 by auto
  have f: "(ym' = ym \<and> xm' = xm) \<or> (\<exists>h \<in> set (g # gs). ry h = ym' \<and> rx h + rw h = xm')"
  proof (cases "ym' = ym \<and> xm' = max xm (rx g + rw g)")
    case True
    then show ?thesis using eq by (cases "xm \<le> rx g + rw g") (auto simp: max_def)
  next
    case False
    with 6 show ?thesis by auto
  qed
  have h: "(ym' = ym \<and> yn' = yn) \<or> (\<exists>h \<in> set (g # gs). ry h = ym' \<and> ry h + rh h = yn')"
  proof (cases "ym' = ym \<and> yn' = max yn (ry g + rh g)")
    case True
    then show ?thesis using eq by (cases "yn \<le> ry g + rh g") (auto simp: max_def)
  next
    case False
    with 7 show ?thesis by auto
  qed
  from 1 b c d e f h show ?thesis unfolding row_scan_iff by blast
qed

lemma row_scan_below:
  assumes lt: "ry g < ym"
    and sc: "row_scan gs (xm, ym, yn) (xm', ym', yn')"
  shows "row_scan (g # gs) (xm, ym, yn) (xm', ym', yn')"
proof -
  from sc have
    1: "ym \<le> ym'" and 2: "\<forall>h \<in> set gs. ry h \<le> ym'"
    and 3: "ym' = ym \<or> (\<exists>h \<in> set gs. ry h = ym')"
    and 4: "\<forall>h \<in> set gs. ry h = ym' \<longrightarrow> rx h + rw h \<le> xm' \<and> ry h + rh h \<le> yn'"
    and 5: "ym' = ym \<longrightarrow> xm \<le> xm' \<and> yn \<le> yn'"
    and 6: "(ym' = ym \<and> xm' = xm) \<or> (\<exists>h \<in> set gs. ry h = ym' \<and> rx h + rw h = xm')"
    and 7: "(ym' = ym \<and> yn' = yn) \<or> (\<exists>h \<in> set gs. ry h = ym' \<and> ry h + rh h = yn')"
    unfolding row_scan_iff by blast+
  have b: "\<forall>h \<in> set (g # gs). ry h \<le> ym'" using lt 1 2 by simp
  have c: "ym' = ym \<or> (\<exists>h \<in> set (g # gs). ry h = ym')" using 3 by auto
  have d: "\<forall>h \<in> set (g # gs). ry h = ym' \<longrightarrow> rx h + rw h \<le> xm' \<and> ry h + rh h \<le> yn'"
    using 4 lt 1 by auto
  have f: "(ym' = ym \<and> xm' = xm) \<or> (\<exists>h \<in> set (g # gs). ry h = ym' \<and> rx h + rw h = xm')"
    using 6 by auto
  have h: "(ym' = ym \<and> yn' = yn) \<or> (\<exists>h \<in> set (g # gs). ry h = ym' \<and> ry h + rh h = yn')"
    using 7 by auto
  from 1 b c d 5 f h show ?thesis unfolding row_scan_iff by blast
qed

lemma initial_position_loop_scan:
  "\<forall>r \<in> set rs. control (heap c r) \<noteq> None \<Longrightarrow>
     \<exists>b. initial_position_loop c rs a = Inr b \<and> row_scan (map (\<lambda>r. rect_of (heap c r)) rs) a b"
proof (induction rs arbitrary: a)
  case Nil
  obtain xm ym yn where a: "a = (xm, ym, yn)" by (cases a) auto
  show ?case by (simp add: a row_scan_iff)
next
  case (Cons r rs)
  obtain xm ym yn where a: "a = (xm, ym, yn)" by (cases a) auto
  from Cons.prems obtain w where w: "control (heap c r) = Some w" by auto
  from Cons.prems have rest: "\<forall>r \<in> set rs. control (heap c r) \<noteq> None" by simp
  let ?g = "rect_of (heap c r)" and ?gs = "map (\<lambda>r. rect_of (heap c r)) rs"
  note pg = rect_of_live [OF w]
  consider (above) "ry ?g > ym" | (same) "ry ?g = ym" | (below) "ry ?g < ym" by linarith
  then show ?case
  proof cases
    case above
    from Cons.IH [OF rest, of "(rx ?g + rw ?g, ry ?g, ry ?g + rh ?g)"] obtain b
      where b: "initial_position_loop c rs (rx ?g + rw ?g, ry ?g, ry ?g + rh ?g) = Inr b"
        and sc: "row_scan ?gs (rx ?g + rw ?g, ry ?g, ry ?g + rh ?g) b" by blast
    obtain xm' ym' yn' where bb: "b = (xm', ym', yn')" by (cases b) auto
    have "initial_position_loop c (r # rs) a = Inr b"
      using pg above b by (simp add: a)
    moreover have "row_scan (?g # ?gs) a b"
      using row_scan_above [OF above sc [unfolded bb]] by (simp add: a bb)
    ultimately show ?thesis by simp
  next
    case same
    from Cons.IH [OF rest, of "(max xm (rx ?g + rw ?g), ym, max yn (ry ?g + rh ?g))"] obtain b
      where b: "initial_position_loop c rs (max xm (rx ?g + rw ?g), ym, max yn (ry ?g + rh ?g)) = Inr b"
        and sc: "row_scan ?gs (max xm (rx ?g + rw ?g), ym, max yn (ry ?g + rh ?g)) b" by blast
    obtain xm' ym' yn' where bb: "b = (xm', ym', yn')" by (cases b) auto
    have "initial_position_loop c (r # rs) a = Inr b"
      using pg same b by (simp add: a)
    moreover have "row_scan (?g # ?gs) a b"
      using row_scan_same [OF same sc [unfolded bb]] by (simp add: a bb)
    ultimately show ?thesis by simp
  next
    case below
    from Cons.IH [OF rest, of "(xm, ym, yn)"] obtain b
      where b: "initial_position_loop c rs (xm, ym, yn) = Inr b"
        and sc: "row_scan ?gs (xm, ym, yn) b" by blast
    obtain xm' ym' yn' where bb: "b = (xm', ym', yn')" by (cases b) auto
    have "initial_position_loop c (r # rs) a = Inr b"
      using pg below b by (simp add: a)
    moreover have "row_scan (?g # ?gs) a b"
      using row_scan_below [OF below sc [unfolded bb]] by (simp add: a bb)
    ultimately show ?thesis by simp
  qed
qed

lemma row_scan_spec:
  assumes "row_scan gs (0, 0, 0) (xm, ym, yn)"
  shows "ym = row_y gs" and "xm = row_right gs" and "yn = row_bottom gs"
proof -
  from assms have
    y1: "0 \<le> ym" and y2: "\<forall>g \<in> set gs. ry g \<le> ym"
    and y3: "ym = 0 \<or> (\<exists>g \<in> set gs. ry g = ym)"
    and b: "\<forall>g \<in> set gs. ry g = ym \<longrightarrow> rx g + rw g \<le> xm \<and> ry g + rh g \<le> yn"
    and z: "ym = 0 \<longrightarrow> 0 \<le> xm \<and> 0 \<le> yn"
    and ax: "(ym = 0 \<and> xm = 0) \<or> (\<exists>g \<in> set gs. ry g = ym \<and> rx g + rw g = xm)"
    and ay: "(ym = 0 \<and> yn = 0) \<or> (\<exists>g \<in> set gs. ry g = ym \<and> ry g + rh g = yn)"
    unfolding row_scan_iff by blast+
  have "Max (set (0 # map ry gs)) = ym"
  proof (rule Max_eqI)
    show "finite (set (0 # map ry gs))" by simp
    show "\<And>y. y \<in> set (0 # map ry gs) \<Longrightarrow> y \<le> ym" using y1 y2 by auto
    show "ym \<in> set (0 # map ry gs)" using y3 by auto
  qed
  then show ym: "ym = row_y gs" by (simp add: row_y_def)
  have "Max (set ((if row_y gs = 0 then [0] else []) @ map (\<lambda>g. rx g + rw g) (row_items gs))) = xm"
  proof (rule Max_eqI)
    show "finite (set ((if row_y gs = 0 then [0] else []) @ map (\<lambda>g. rx g + rw g) (row_items gs)))"
      by simp
    show "\<And>y. y \<in> set ((if row_y gs = 0 then [0] else []) @ map (\<lambda>g. rx g + rw g) (row_items gs))
            \<Longrightarrow> y \<le> xm"
      using b z ym by (auto simp: row_items_def split: if_splits)
    show "xm \<in> set ((if row_y gs = 0 then [0] else []) @ map (\<lambda>g. rx g + rw g) (row_items gs))"
      using ax ym by (auto simp: row_items_def)
  qed
  then show "xm = row_right gs" by (simp add: row_right_def)
  have "Max (set ((if row_y gs = 0 then [0] else []) @ map (\<lambda>g. ry g + rh g) (row_items gs))) = yn"
  proof (rule Max_eqI)
    show "finite (set ((if row_y gs = 0 then [0] else []) @ map (\<lambda>g. ry g + rh g) (row_items gs)))"
      by simp
    show "\<And>y. y \<in> set ((if row_y gs = 0 then [0] else []) @ map (\<lambda>g. ry g + rh g) (row_items gs))
            \<Longrightarrow> y \<le> yn"
      using b z ym by (auto simp: row_items_def split: if_splits)
    show "yn \<in> set ((if row_y gs = 0 then [0] else []) @ map (\<lambda>g. ry g + rh g) (row_items gs))"
      using ay ym by (auto simp: row_items_def)
  qed
  then show "yn = row_bottom gs" by (simp add: row_bottom_def)
qed

lemma initial_position_for_live:
  assumes "\<forall>r \<in> set (items c). control (heap c r) \<noteq> None"
  shows "initial_position_for c dx dy =
           Inr (initial_position_spec (rects c) (fst (canvas_size c)) dx)"
proof -
  from initial_position_loop_scan [OF assms, of "(0, 0, 0)"] obtain b
    where b: "initial_position_loop c (items c) (0, 0, 0) = Inr b"
      and sc: "row_scan (rects c) (0, 0, 0) b" by (auto simp: rects_def)
  obtain xm ym yn where bb: "b = (xm, ym, yn)" by (cases b) auto
  note s = row_scan_spec [OF sc [unfolded bb]]
  show ?thesis
    by (simp add: initial_position_for_def split_beta b bb initial_position_spec_def
          s [symmetric])
qed

lemma initial_position_loop_dead:
  "\<exists>r \<in> set rs. control (heap c r) = None \<Longrightarrow> initial_position_loop c rs a = Inl AttributeError"
proof (induction rs arbitrary: a)
  case Nil
  then show ?case by simp
next
  case (Cons r rs)
  obtain xm ym yn where a: "a = (xm, ym, yn)" by (cases a) auto
  show ?case
  proof (cases "control (heap c r)")
    case None
    then show ?thesis by (simp add: a position_def)
  next
    case (Some w)
    with Cons.prems have "\<exists>r \<in> set rs. control (heap c r) = None" by auto
    from Cons.IH [OF this] Some show ?thesis
      by (simp add: a position_def size'_def split_beta)
  qed
qed

lemma initial_position_for_dead:
  "\<exists>r \<in> set (items c). control (heap c r) = None \<Longrightarrow>
     initial_position_for c dx dy = Inl AttributeError"
  using initial_position_loop_dead [of "items c" c "(0, 0, 0)"]
  by (simp add: initial_position_for_def split_beta)

subsection \<open>Snapping\<close>

lemma guide_snap_spec:
  "guide_snap p t ks (snap, d) = (snap', d') \<Longrightarrow>
     d' = d \<or> (\<exists>x0 \<in> set ks. d' = x0 - p \<and> \<bar>t - x0\<bar> \<le> snap)"
proof (induction ks arbitrary: snap d)
  case Nil
  then show ?case by simp
next
  case (Cons x0 ks)
  show ?case
  proof (cases "\<bar>t - x0\<bar> \<le> snap")
    case True
    with Cons.prems have "guide_snap p t ks (\<bar>t - x0\<bar>, x0 - p) = (snap', d')" by simp
    from Cons.IH [OF this] True show ?thesis by auto
  next
    case False
    with Cons.prems have "guide_snap p t ks (snap, d) = (snap', d')" by simp
    from Cons.IH [OF this] show ?thesis by auto
  qed
qed

lemma guide_snap_snd:
  "snd (guide_snap p t ks (snap, d)) = d' \<Longrightarrow> d' \<noteq> d \<Longrightarrow>
     p + d' \<in> set ks \<and> \<bar>t - (p + d')\<bar> \<le> snap"
  using guide_snap_spec [of p t ks snap d "fst (guide_snap p t ks (snap, d))" d']
  by auto

lemma snap_x_zero: "distance (snap_info c) = 0 \<Longrightarrow> snap_x c x dx = Inr dx"
  by (simp add: snap_x_def)

lemma snap_y_zero: "distance (snap_info c) = 0 \<Longrightarrow> snap_y c y dy = Inr dy"
  by (simp add: snap_y_def)

lemma snap_x_snapped:
  assumes "snap_x c x dx = Inr dx'" and "dx' \<noteq> dx"
  shows "(on_grid_line (grid_info c) (x + dx') \<or> on_guide_x c (x + dx')) \<and>
         \<bar>(x + dx) - (x + dx')\<bar> \<le> distance (snap_info c)"
proof -
  let ?snap = "distance (snap_info c)" and ?gi = "grid_info c" and ?xt = "x + dx"
  let ?x0 = "(?xt - grid_offset ?gi) div grid_size ?gi * grid_size ?gi + grid_offset ?gi"
  let ?x1 = "?x0 + grid_size ?gi"
  from assms have nz: "?snap \<noteq> 0" by (auto simp: snap_x_def)
  consider (g0) "grid_snapping ?gi" "\<bar>?xt - ?x0\<bar> \<le> ?snap" "dx' = ?x0 - x"
    | (g1) "grid_snapping ?gi" "\<bar>?xt - ?x1\<bar> \<le> ?snap" "dx' = ?x1 - x"
    | (gd) xs ys where "guide_snapping (guide_info c)" "drag_guides c = Some (xs, ys)"
        "snd (guide_snap x ?xt (map fst xs) (?snap, dx)) = dx'"
    using assms nz
    by (auto simp: snap_x_def Let_def split: if_splits option.splits)
  then show ?thesis
  proof cases
    case g0
    have "grid_size ?gi dvd ?x0 - grid_offset ?gi" by simp
    with g0 show ?thesis by (simp add: on_grid_line_def)
  next
    case g1
    have "?x1 - grid_offset ?gi = ((?xt - grid_offset ?gi) div grid_size ?gi + 1) * grid_size ?gi"
      by (simp add: algebra_simps)
    then have "grid_size ?gi dvd ?x1 - grid_offset ?gi" by (metis dvd_triv_right)
    with g1 show ?thesis by (simp add: on_grid_line_def)
  next
    case gd
    from guide_snap_snd [OF gd(3) assms(2)] gd(1,2) show ?thesis
      by (simp add: on_guide_x_def)
  qed
qed

lemma snap_y_snapped:
  assumes "snap_y c y dy = Inr dy'" and "dy' \<noteq> dy"
  shows "(on_grid_line (grid_info c) (y + dy') \<or> on_guide_y c (y + dy')) \<and>
         \<bar>(y + dy) - (y + dy')\<bar> \<le> distance (snap_info c)"
proof -
  let ?snap = "distance (snap_info c)" and ?gi = "grid_info c" and ?yt = "y + dy"
  let ?y0 = "(?yt - grid_offset ?gi) div grid_size ?gi * grid_size ?gi + grid_offset ?gi"
  let ?y1 = "?y0 + grid_size ?gi"
  from assms have nz: "?snap \<noteq> 0" by (auto simp: snap_y_def)
  consider (g0) "grid_snapping ?gi" "\<bar>?yt - ?y0\<bar> \<le> ?snap" "dy' = ?y0 - y"
    | (g1) "grid_snapping ?gi" "\<bar>?yt - ?y1\<bar> \<le> ?snap" "dy' = ?y1 - y"
    | (gd) xs ys where "guide_snapping (guide_info c)" "drag_guides c = Some (xs, ys)"
        "snd (guide_snap y ?yt (map fst ys) (?snap, dy)) = dy'"
    using assms nz
    by (auto simp: snap_y_def Let_def split: if_splits option.splits)
  then show ?thesis
  proof cases
    case g0
    have "grid_size ?gi dvd ?y0 - grid_offset ?gi" by simp
    with g0 show ?thesis by (simp add: on_grid_line_def)
  next
    case g1
    have "?y1 - grid_offset ?gi = ((?yt - grid_offset ?gi) div grid_size ?gi + 1) * grid_size ?gi"
      by (simp add: algebra_simps)
    then have "grid_size ?gi dvd ?y1 - grid_offset ?gi" by (metis dvd_triv_right)
    with g1 show ?thesis by (simp add: on_grid_line_def)
  next
    case gd
    from guide_snap_snd [OF gd(3) assms(2)] gd(1,2) show ?thesis
      by (simp add: on_guide_y_def)
  qed
qed

text \<open>Snapping returns unless the grid size is zero or the drag guides are missing.\<close>

lemma snap_x_total:
  "grid_size (grid_info c) \<noteq> 0 \<Longrightarrow> drag_guides c \<noteq> None \<Longrightarrow> \<exists>d. snap_x c x dx = Inr d"
  by (auto simp: snap_x_def Let_def split: option.splits)

lemma snap_y_total:
  "grid_size (grid_info c) \<noteq> 0 \<Longrightarrow> drag_guides c \<noteq> None \<Longrightarrow> \<exists>d. snap_y c y dy = Inr d"
  by (auto simp: snap_y_def Let_def split: option.splits)

subsection \<open>Resizing\<close>

lemma and_5_zero: "(mode::int) AND 5 = 0 \<Longrightarrow> mode AND 4 = 0 \<and> mode AND 1 = 0"
proof -
  assume a: "mode AND 5 = 0"
  have "mode AND 4 = (mode AND 5) AND 4" by (simp add: and.assoc)
  moreover have "mode AND 1 = (mode AND 5) AND 1" by (simp add: and.assoc)
  ultimately show ?thesis using a by simp
qed

lemma and_10_zero: "(mode::int) AND 10 = 0 \<Longrightarrow> mode AND 8 = 0 \<and> mode AND 2 = 0"
proof -
  assume a: "mode AND 10 = 0"
  have "mode AND 8 = (mode AND 10) AND 8" by (simp add: and.assoc)
  moreover have "mode AND 2 = (mode AND 10) AND 2" by (simp add: and.assoc)
  ultimately show ?thesis using a by simp
qed

lemma resize_x_frame: "mode AND 5 = 0 \<Longrightarrow> resize_x c mode xo dxo dx = Inr (xo, dxo)"
  using and_5_zero [of mode] by (simp add: resize_x_def)

lemma resize_y_frame: "mode AND 10 = 0 \<Longrightarrow> resize_y c mode yo dyo dy = Inr (yo, dyo)"
  using and_10_zero [of mode] by (simp add: resize_y_def)

lemma set_dimensions_geometry:
  "set_dimensions c r x y dx dy = Inr c' \<Longrightarrow>
     position (heap c' r) = Inr (x, y) \<and> size' (heap c' r) = Inr (dx, dy)"
  by (auto simp: set_dimensions_def position_def size'_def split: option.splits)

text \<open>After a resize that returns, the item has the geometry the two axis blocks computed.\<close>

lemma resize_geometry:
  assumes "resize c r mode xo yo dxo dyo dx dy = Inr c'"
  shows "\<exists>xo' dxo' yo' dyo'.
           resize_x c mode xo dxo (if mode AND 5 = 0 then 0 else dx) = Inr (xo', dxo') \<and>
           resize_y c mode yo dyo (if mode AND 10 = 0 then 0 else dy) = Inr (yo', dyo') \<and>
           position (heap c' r) = Inr (xo', yo') \<and> size' (heap c' r) = Inr (dxo', dyo')"
proof -
  let ?dx = "if mode AND 5 = 0 then 0 else dx" and ?dy = "if mode AND 10 = 0 then 0 else dy"
  from assms obtain xo' dxo' where x: "resize_x c mode xo dxo ?dx = Inr (xo', dxo')"
    by (cases "resize_x c mode xo dxo ?dx") (auto simp: resize_def Let_def)
  from assms x obtain yo' dyo' where y: "resize_y c mode yo dyo ?dy = Inr (yo', dyo')"
    by (cases "resize_y c mode yo dyo ?dy") (auto simp: resize_def Let_def)
  from assms x y obtain cx cy where p: "position (heap c r) = Inr (cx, cy)"
    by (cases "position (heap c r)") (auto simp: resize_def Let_def)
  from assms x y p obtain cdx cdy where s: "size' (heap c r) = Inr (cdx, cdy)"
    by (cases "size' (heap c r)") (auto simp: resize_def Let_def)
  have "position (heap c' r) = Inr (xo', yo') \<and> size' (heap c' r) = Inr (dxo', dyo')"
  proof (cases "xo' \<noteq> cx \<or> yo' \<noteq> cy \<or> dxo' \<noteq> cdx \<or> dyo' \<noteq> cdy")
    case True
    with assms x y p s have "set_dimensions c r xo' yo' dxo' dyo' = Inr c'"
      by (simp add: resize_def Let_def)
    then show ?thesis by (rule set_dimensions_geometry)
  next
    case False
    with assms x y p s have "c' = c" by (simp add: resize_def Let_def)
    with False p s show ?thesis by simp
  qed
  with x y show ?thesis by blast
qed

lemma resize_total:
  assumes "grid_size (grid_info c) \<noteq> 0" and "drag_guides c \<noteq> None"
    and "control (heap c r) \<noteq> None"
  shows "\<exists>c'. resize c r mode xo yo dxo dyo dx dy = Inr c'"
proof -
  have sx: "\<And>x d. \<exists>v. snap_x c x d = Inr v" using snap_x_total [OF assms(1,2)] by simp
  have sy: "\<And>y d. \<exists>v. snap_y c y d = Inr v" using snap_y_total [OF assms(1,2)] by simp
  have rx: "\<And>d. \<exists>v. resize_x c mode xo dxo d = Inr v"
  proof -
    fix d
    obtain v1 where v1: "snap_x c xo d = Inr v1" using sx by blast
    obtain v2 where v2: "snap_x c (xo + dxo) d = Inr v2" using sx by blast
    show "\<exists>v. resize_x c mode xo dxo d = Inr v"
      by (simp add: resize_x_def v1 v2)
  qed
  have ry: "\<And>d. \<exists>v. resize_y c mode yo dyo d = Inr v"
  proof -
    fix d
    obtain v1 where v1: "snap_y c yo d = Inr v1" using sy by blast
    obtain v2 where v2: "snap_y c (yo + dyo) d = Inr v2" using sy by blast
    show "\<exists>v. resize_y c mode yo dyo d = Inr v"
      by (simp add: resize_y_def v1 v2)
  qed
  from assms(3) obtain w where w: "control (heap c r) = Some w" by auto
  obtain vx where vx: "resize_x c mode xo dxo (if mode AND 5 = 0 then 0 else dx) = Inr vx"
    using rx by blast
  obtain vy where vy: "resize_y c mode yo dyo (if mode AND 10 = 0 then 0 else dy) = Inr vy"
    using ry by blast
  show ?thesis
    by (simp add: resize_def Let_def vx vy position_def size'_def w set_dimensions_def split_beta)
qed

subsection \<open>The cursor mode\<close>

lemma cursor_mode_spec_inside:
  assumes "0 \<le> x" "x < dx" "0 \<le> y" "y < dy"
  shows "cursor_mode_spec rs mv xt xb x y dx dy =
           (let m = (if rs then snd (resize_mode x y dx dy) else 0) in
            if m = 0 \<and> mv then (if y < xt \<or> y \<ge> dy - xb then 12 else m) else m)"
proof (cases rs)
  case False
  with assms show ?thesis by (simp add: cursor_mode_spec_def)
next
  case True
  with assms show ?thesis
    by (simp add: cursor_mode_spec_def resize_mode_def)
qed

lemma set_cursor_mode:
  assumes "control it = Some w" and "w_size w = (dx, dy)" and "theme it = Some th"
  shows "\<exists>it'. set_cursor ad it x y =
           Inr (it', cursor_mode_spec (get_can_resize ad (object it)) (get_can_move ad (object it))
                       (xtop (slice th)) (xbottom (slice th)) x y dx dy)"
proof (cases "0 \<le> x \<and> x < dx \<and> 0 \<le> y \<and> y < dy")
  case False
  then show ?thesis
    using assms by (auto simp: set_cursor_def size'_def cursor_mode_spec_def)
next
  case True
  obtain cu m where rm: "resize_mode x y dx dy = (cu, m)" by (cases "resize_mode x y dx dy") auto
  from True have "cursor_mode_spec (get_can_resize ad (object it)) (get_can_move ad (object it))
                       (xtop (slice th)) (xbottom (slice th)) x y dx dy =
          (let m = (if get_can_resize ad (object it) then m else 0) in
            if m = 0 \<and> get_can_move ad (object it)
            then (if y < xtop (slice th) \<or> y \<ge> dy - xbottom (slice th) then 12 else m) else m)"
    by (simp add: cursor_mode_spec_inside rm)
  then show ?thesis
    using True assms by (simp add: set_cursor_def size'_def rm Let_def)
qed

subsection \<open>Activation\<close>

lemma set_state_fields [simp]:
  "items (set_state c r s) = items c"
  "active_item (set_state c r s) = active_item c"
  "adapter (set_state c r s) = adapter c"
  by (simp_all add: set_state_def Let_def)

lemma set_state_state:
  "state (heap (set_state c r s) q) = (if q = r then s else state (heap c q))"
  by (simp add: set_state_def Let_def)

lemma set_state_object [simp]: "object (heap (set_state c r s) q) = object (heap c q)"
  by (simp add: set_state_def Let_def)

lemma set_state_notifications [simp]:
  "filter is_notification (trace (set_state c r s)) = filter is_notification (trace c)"
  by (simp add: set_state_def Let_def)

lemma notify_fields [simp]:
  "items (notify c e) = items c"
  "active_item (notify c e) = active_item c"
  "heap (notify c e) = heap c"
  "trace (notify c e) = trace c @ [e]"
  by (simp_all add: notify_def)

lemma activate_same: "activate c (active_item c) = c"
  by (simp add: activate_def)

lemma activate_active_item: "active_item (activate c item) = item"
  by (auto simp: activate_def Let_def split: option.splits)

lemma activate_items: "items (activate c item) = items c"
  by (auto simp: activate_def Let_def split: option.splits)

lemma activate_state:
  "item \<noteq> active_item c \<Longrightarrow>
     state (heap (activate c item) q) =
       (if item = Some q then ''active''
        else if active_item c = Some q then ''inactive''
        else state (heap c q))"
  by (auto simp: activate_def Let_def set_state_state split: option.splits)

lemma activate_notifications:
  "item \<noteq> active_item c \<Longrightarrow>
     filter is_notification (trace (activate c item)) =
       filter is_notification (trace c)
       @ (case active_item c of None \<Rightarrow> [] | Some a \<Rightarrow> [SetDeactivated (object (heap c a))])
       @ (case item of None \<Rightarrow> [] | Some r \<Rightarrow> [SetActivated (object (heap c r))])"
  by (auto simp: activate_def Let_def split: option.splits)

lemma activate_single_active:
  assumes "single_active c"
  shows "single_active (activate c item)"
proof (cases "item = active_item c")
  case True
  with assms show ?thesis by (simp add: activate_same)
next
  case False
  show ?thesis
    unfolding single_active_def
  proof (intro ballI impI)
    fix q
    assume q: "q \<in> set (items (activate c item))"
      and a: "state (heap (activate c item) q) = ''active''"
    show "active_item (activate c item) = Some q"
    proof (cases "item = Some q")
      case True
      then show ?thesis by (simp add: activate_active_item)
    next
      case nq: False
      with a False have "active_item c \<noteq> Some q" "state (heap c q) = ''active''"
        by (auto simp: activate_state split: if_splits)
      with assms q show ?thesis
        by (simp add: single_active_def activate_items)
    qed
  qed
qed

lemma single_active_unique:
  assumes "single_active c" and "q \<in> set (items c)" and "q' \<in> set (items c)"
    and "state (heap c q) = ''active''" and "state (heap c q') = ''active''"
  shows "q = q'"
proof -
  from assms(1,2,4) have "active_item c = Some q" unfolding single_active_def by blast
  moreover from assms(1,3,5) have "active_item c = Some q'" unfolding single_active_def by blast
  ultimately show ?thesis by simp
qed

lemma single_active_length:
  assumes "single_active c"
  shows "length (active_items c) \<le> 1"
proof -
  have d: "distinct (active_items c)" by (simp add: active_items_def)
  have "set (active_items c) \<subseteq> (case active_item c of None \<Rightarrow> {} | Some a \<Rightarrow> {a})"
    using assms by (auto simp: active_items_def single_active_def split: option.splits)
  then have "card (set (active_items c)) \<le> 1"
  proof (cases "active_item c")
    case None
    assume "set (active_items c) \<subseteq> (case active_item c of None \<Rightarrow> {} | Some a \<Rightarrow> {a})"
    with None show ?thesis by simp
  next
    case (Some a)
    assume "set (active_items c) \<subseteq> (case active_item c of None \<Rightarrow> {} | Some a \<Rightarrow> {a})"
    with Some have "set (active_items c) \<subseteq> {a}" by simp
    then have "card (set (active_items c)) \<le> card {a}" by (intro card_mono) simp_all
    then show ?thesis by simp
  qed
  with d show ?thesis by (simp add: distinct_card)
qed

subsection \<open>Replacing items\<close>

lemma slice_index_nonneg: "0 \<le> i \<Longrightarrow> slice_index n i = min n (nat i)"
  by (simp add: slice_index_def)

lemma slice_index_le: "slice_index n i \<le> n"
  by (auto simp: slice_index_def)

lemma set_take_drop: "set (take a xs) \<union> set (drop a xs) = set xs"
  by (metis append_take_drop_id set_append)

lemma set_py_insert: "set (py_insert xs i x) = insert x (set xs)"
  using set_take_drop [of "slice_index (length xs) i" xs]
  by (auto simp: py_insert_def Let_def)

lemma py_slice_split:
  "xs = take (slice_index (length xs) i) xs @ py_slice xs i j
        @ drop (max (slice_index (length xs) i) (slice_index (length xs) j)) xs"
proof -
  let ?a = "slice_index (length xs) i" and ?b = "slice_index (length xs) j"
  have m: "?b - ?a + ?a = max ?a ?b" by arith
  have "drop ?a xs = take (?b - ?a) (drop ?a xs) @ drop (?b - ?a) (drop ?a xs)"
    by (simp only: append_take_drop_id)
  also have "drop (?b - ?a) (drop ?a xs) = drop (max ?a ?b) xs"
    by (simp only: drop_drop m)
  finally have "drop ?a xs = py_slice xs i j @ drop (max ?a ?b) xs"
    by (simp add: py_slice_def Let_def)
  then have "take ?a xs @ drop ?a xs = take ?a xs @ py_slice xs i j @ drop (max ?a ?b) xs"
    by simp
  then show ?thesis by simp
qed

lemma set_py_slices: "set xs \<subseteq> set (py_slice xs i j) \<union> set (py_del_slice xs i j)"
proof -
  let ?a = "slice_index (length xs) i" and ?b = "slice_index (length xs) j"
  have "set xs = set (take ?a xs @ py_slice xs i j @ drop (max ?a ?b) xs)"
    using py_slice_split [of xs i j] by simp
  then show ?thesis
    by (auto simp: py_del_slice_def Let_def)
qed

lemma set_py_del_slice: "set (py_del_slice xs i j) \<subseteq> set xs"
  by (auto simp: py_del_slice_def Let_def dest: in_set_takeD in_set_dropD)

text \<open>\<open>dispose\<close>\<close>

lemma dispose_fields [simp]:
  "items (dispose c r) = items c"
  "active_item (dispose c r) = active_item c"
  by (simp_all add: dispose_def Let_def split: option.splits)

lemma dispose_other: "q \<noteq> r \<Longrightarrow> heap (dispose c r) q = heap c q"
  by (simp add: dispose_def Let_def split: option.splits)

lemma dispose_disposed: "disposed (heap (dispose c r) r)"
  by (simp add: dispose_def disposed_def Let_def split: option.splits)

lemma dispose_keeps_disposed: "disposed (heap c q) \<Longrightarrow> disposed (heap (dispose c r) q)"
  by (cases "q = r") (simp_all add: dispose_disposed dispose_other)

lemma fold_dispose_fields [simp]:
  "items (fold (\<lambda>r c. dispose c r) rs c) = items c"
  "active_item (fold (\<lambda>r c. dispose c r) rs c) = active_item c"
  by (induction rs arbitrary: c) simp_all

lemma fold_dispose_other:
  "q \<notin> set rs \<Longrightarrow> heap (fold (\<lambda>r c. dispose c r) rs c) q = heap c q"
  by (induction rs arbitrary: c) (simp_all add: dispose_other)

lemma fold_dispose_keeps:
  "disposed (heap c q) \<Longrightarrow> disposed (heap (fold (\<lambda>r c. dispose c r) rs c) q)"
  by (induction rs arbitrary: c) (simp_all add: dispose_keeps_disposed)

lemma fold_dispose_disposed:
  "q \<in> set rs \<Longrightarrow> disposed (heap (fold (\<lambda>r c. dispose c r) rs c) q)"
proof (induction rs arbitrary: c)
  case Nil
  then show ?case by simp
next
  case (Cons r rs)
  show ?case
  proof (cases "q = r")
    case True
    then show ?thesis by (simp add: fold_dispose_keeps dispose_disposed)
  next
    case False
    with Cons show ?thesis by simp
  qed
qed

text \<open>\<open>set_dimensions\<close>, \<open>initialize_position\<close>\<close>

lemma set_dimensions_effect:
  assumes "set_dimensions c r x y dx dy = Inr c'"
  shows "items c' = items c" and "active_item c' = active_item c"
    and "scrollable c' = scrollable c" and "view_start c' = view_start c"
    and "scroll_ppu c' = scroll_ppu c" and "adapter c' = adapter c"
    and "canvas_size c' = canvas_size c"
    and "control (heap c r) \<noteq> None"
    and "\<And>q. (control (heap c' q) = None) = (control (heap c q) = None)"
    and "\<And>q. ui (heap c' q) = ui (heap c q)"
    and "\<And>q. disposed (heap c' q) = disposed (heap c q)"
  using assms by (auto simp: set_dimensions_def disposed_def split: option.splits if_splits)

lemma initialize_position_set:
  assumes "initialize_position c r = Inr c'"
  shows "\<exists>x y dx dy. set_dimensions c r x y dx dy = Inr c'"
  using assms
  by (auto simp: initialize_position_def Let_def split_beta bindE_Inr_iff)

lemma initialize_position_effect:
  assumes "initialize_position c r = Inr c'"
  shows "items c' = items c" and "active_item c' = active_item c"
    and "scrollable c' = scrollable c" and "view_start c' = view_start c"
    and "scroll_ppu c' = scroll_ppu c" and "adapter c' = adapter c"
    and "canvas_size c' = canvas_size c"
    and "control (heap c r) \<noteq> None"
    and "\<And>q. (control (heap c' q) = None) = (control (heap c q) = None)"
    and "\<And>q. ui (heap c' q) = ui (heap c q)"
    and "\<And>q. disposed (heap c' q) = disposed (heap c q)"
proof -
  from initialize_position_set [OF assms] obtain x y dx dy
    where s: "set_dimensions c r x y dx dy = Inr c'" by blast
  note e = set_dimensions_effect [OF s]
  show "items c' = items c" by (rule e)
  show "active_item c' = active_item c" by (rule e)
  show "scrollable c' = scrollable c" by (rule e)
  show "view_start c' = view_start c" by (rule e)
  show "scroll_ppu c' = scroll_ppu c" by (rule e)
  show "adapter c' = adapter c" by (rule e)
  show "canvas_size c' = canvas_size c" by (rule e)
  show "control (heap c r) \<noteq> None" by (rule e)
  show "\<And>q. (control (heap c' q) = None) = (control (heap c q) = None)" by (rule e)
  show "\<And>q. ui (heap c' q) = ui (heap c q)" by (rule e)
  show "\<And>q. disposed (heap c' q) = disposed (heap c q)" by (rule e)
qed

lemma initialize_position_total:
  assumes "control (heap c r) \<noteq> None"
    and "\<forall>q \<in> set (items c). control (heap c q) \<noteq> None"
  shows "\<exists>c'. initialize_position c r = Inr c'"
proof -
  from assms(1) obtain w where w: "control (heap c r) = Some w" by auto
  have sd: "\<And>x y dx dy. \<exists>c'. set_dimensions c r x y dx dy = Inr c'"
    by (simp add: set_dimensions_def w)
  have ip: "\<And>dx dy. \<exists>p. initial_position_for c dx dy = Inr p"
    using initial_position_loop_total [OF assms(2), of "(0, 0, 0)"]
    by (auto simp: initial_position_for_def split_beta)
  obtain bdx bdy where b: "best_size (heap c r) = (bdx, bdy)" by (cases "best_size (heap c r)") auto
  obtain cdx cdy where cs: "canvas_size c = (cdx, cdy)" by (cases "canvas_size c") auto
  obtain px py where p: "get_position (adapter c) (object (heap c r)) = (px, py)"
    by (cases "get_position (adapter c) (object (heap c r))") auto
  obtain sx sy where s: "get_size (adapter c) (object (heap c r)) = (sx, sy)"
    by (cases "get_size (adapter c) (object (heap c r))") auto
  obtain q where q: "initial_position_for c (initial_extent sx bdx cdx) (initial_extent sy bdy cdy) = Inr q"
    using ip by blast
  obtain qx qy where qq: "q = (qx, qy)" by (cases q) auto
  show ?thesis
    using sd by (simp add: initialize_position_def Let_def b cs p s q qq)
qed

text \<open>\<open>insert_items\<close>\<close>

lemma insert_items_effect:
  "insert_items c new i = Inr c' \<Longrightarrow>
     active_item c' = active_item c \<and> scrollable c' = scrollable c \<and>
     set (items c') = set (items c) \<union> set new \<and>
     (\<forall>q. disposed (heap c' q) = disposed (heap c q)) \<and>
     (\<forall>q \<in> set new. control (heap c q) \<noteq> None)"
proof (induction new arbitrary: c i)
  case Nil
  then show ?case by simp
next
  case (Cons r rs)
  from Cons.prems obtain c1 where c1: "initialize_position c r = Inr c1"
    and rest: "insert_items (c1\<lparr>items := py_insert (items c1) i r\<rparr>) rs (i + 1) = Inr c'"
    by (auto simp: bindE_Inr_iff)
  note e = initialize_position_effect [OF c1]
  from Cons.IH [OF rest] e show ?case
    by (auto simp: set_py_insert)
qed

lemma insert_items_shape:
  "insert_items c new i = Inr c' \<Longrightarrow> 0 \<le> i \<Longrightarrow> nat i \<le> length (items c) \<Longrightarrow>
     items c' = take (nat i) (items c) @ new @ drop (nat i) (items c)"
proof (induction new arbitrary: c i)
  case Nil
  then show ?case by simp
next
  case (Cons r rs)
  from Cons.prems obtain c1 where c1: "initialize_position c r = Inr c1"
    and rest: "insert_items (c1\<lparr>items := py_insert (items c1) i r\<rparr>) rs (i + 1) = Inr c'"
    by (auto simp: bindE_Inr_iff)
  let ?xs = "items c" and ?a = "nat i"
  have it: "items c1 = ?xs" by (rule initialize_position_effect [OF c1])
  from Cons.prems have si: "slice_index (length ?xs) i = ?a"
    by (simp add: slice_index_nonneg)
  have ins: "py_insert ?xs i r = take ?a ?xs @ r # drop ?a ?xs"
    by (simp add: py_insert_def si Let_def)
  let ?c2 = "c1\<lparr>items := py_insert (items c1) i r\<rparr>"
  have i2: "items ?c2 = take ?a ?xs @ r # drop ?a ?xs" by (simp add: it ins)
  from Cons.prems have n1: "nat (i + 1) = Suc ?a" by simp
  from Cons.prems have len: "length (take ?a ?xs) = ?a" by simp
  have "nat (i + 1) \<le> length (items ?c2)" using Cons.prems by (simp add: i2 n1)
  moreover have "0 \<le> i + 1" using Cons.prems by simp
  ultimately have "items c' = take (nat (i + 1)) (items ?c2) @ rs @ drop (nat (i + 1)) (items ?c2)"
    using Cons.IH [OF rest] by blast
  moreover have "take (Suc ?a) (take ?a ?xs @ r # drop ?a ?xs) = take ?a ?xs @ [r]"
    using len by (simp add: take_Suc_conv_app_nth)
  moreover have "drop (Suc ?a) (take ?a ?xs @ r # drop ?a ?xs) = drop ?a ?xs"
    using len by simp
  ultimately show ?case by (simp add: i2 n1)
qed

lemma adjust_size_loop_total:
  "\<forall>q \<in> set rs. control (heap c q) \<noteq> None \<Longrightarrow> \<exists>v. adjust_size_loop c rs vs acc = Inr v"
proof (induction rs arbitrary: acc)
  case Nil
  then show ?case by (cases vs; cases acc) simp
next
  case (Cons r rs)
  obtain xvs yvs where vs: "vs = (xvs, yvs)" by (cases vs) auto
  obtain cdx cdy where acc: "acc = (cdx, cdy)" by (cases acc) auto
  from Cons.prems obtain w where w: "control (heap c r) = Some w" by auto
  from Cons.prems have rest: "\<forall>q \<in> set rs. control (heap c q) \<noteq> None" by simp
  show ?case
    using Cons.IH [OF rest] by (simp add: vs acc position_def size'_def w split_beta)
qed

lemma adjust_size_effect:
  "adjust_size c = Inr c' \<Longrightarrow>
     items c' = items c \<and> active_item c' = active_item c \<and> heap c' = heap c"
  by (auto simp: adjust_size_def split_beta bindE_Inr_iff split: if_splits)

lemma adjust_size_total:
  "\<forall>q \<in> set (items c). control (heap c q) \<noteq> None \<Longrightarrow> \<exists>c'. adjust_size c = Inr c'"
  using adjust_size_loop_total [of "items c" c]
  by (auto simp: adjust_size_def split_beta bindE_Inr_iff)

lemma insert_items_total:
  "\<forall>q \<in> set (items c) \<union> set new. control (heap c q) \<noteq> None \<Longrightarrow>
     \<exists>c'. insert_items c new i = Inr c' \<and>
          (\<forall>q \<in> set (items c'). control (heap c' q) \<noteq> None)"
proof (induction new arbitrary: c i)
  case Nil
  then show ?case by simp
next
  case (Cons r rs)
  from Cons.prems have "control (heap c r) \<noteq> None"
    and "\<forall>q \<in> set (items c). control (heap c q) \<noteq> None" by simp_all
  from initialize_position_total [OF this] obtain c1
    where c1: "initialize_position c r = Inr c1" by blast
  note e = initialize_position_effect [OF c1]
  let ?c2 = "c1\<lparr>items := py_insert (items c1) i r\<rparr>"
  have "\<forall>q \<in> set (items ?c2) \<union> set rs. control (heap ?c2 q) \<noteq> None"
    using Cons.prems e(1,9) by (auto simp: set_py_insert)
  from Cons.IH [OF this, of "i + 1"] c1 show ?case by simp
qed

text \<open>\<open>replace_items\<close>\<close>

lemma replace_items_unfold:
  "replace_items c new i j =
     bindE (insert_items
              ((fold (\<lambda>r c. dispose c r) (py_slice (items c) i (slice_end (items c) j))
                  (if (case active_item c of None \<Rightarrow> False
                       | Some a \<Rightarrow> a \<in> set (py_slice (items c) i (slice_end (items c) j)))
                   then c\<lparr>active_item := None\<rparr> else c))
                \<lparr>items := py_del_slice (items c) i (slice_end (items c) j)\<rparr>) new i)
           adjust_size"
  unfolding replace_items_def Let_def slice_end_def by (rule refl)

lemma replace_items_steps:
  assumes "replace_items c new i j = Inr c'"
  shows "\<exists>c4.
           insert_items
              ((fold (\<lambda>r c. dispose c r) (py_slice (items c) i (slice_end (items c) j))
                  (if (case active_item c of None \<Rightarrow> False
                       | Some a \<Rightarrow> a \<in> set (py_slice (items c) i (slice_end (items c) j)))
                   then c\<lparr>active_item := None\<rparr> else c))
                \<lparr>items := py_del_slice (items c) i (slice_end (items c) j)\<rparr>) new i = Inr c4 \<and>
           adjust_size c4 = Inr c'"
  using assms unfolding replace_items_unfold bindE_Inr_iff .

lemma replace_items_effect:
  assumes "replace_items c new i j = Inr c'"
  shows "\<forall>q \<in> set (py_slice (items c) i (slice_end (items c) j)). disposed (heap c' q)"
    and "active_item c' =
           (case active_item c of None \<Rightarrow> None
            | Some a \<Rightarrow> if a \<in> set (py_slice (items c) i (slice_end (items c) j))
                        then None else Some a)"
    and "set (items c') = set (py_del_slice (items c) i (slice_end (items c) j)) \<union> set new"
    and "0 \<le> i \<Longrightarrow> nat i \<le> length (items c) \<Longrightarrow>
           items c' = take (nat i) (items c) @ new
                      @ drop (max (nat i) (slice_index (length (items c)) (slice_end (items c) j)))
                          (items c)"
proof -
  let ?sl = "py_slice (items c) i (slice_end (items c) j)"
  let ?c1 = "if (case active_item c of None \<Rightarrow> False | Some a \<Rightarrow> a \<in> set ?sl)
             then c\<lparr>active_item := None\<rparr> else c"
  let ?c3 = "(fold (\<lambda>r c. dispose c r) ?sl ?c1)
               \<lparr>items := py_del_slice (items c) i (slice_end (items c) j)\<rparr>"
  from replace_items_steps [OF assms] obtain c4
    where ins: "insert_items ?c3 new i = Inr c4" and adj: "adjust_size c4 = Inr c'"
    by blast
  note ie = insert_items_effect [OF ins]
  note ae = adjust_size_effect [OF adj]
  show "\<forall>q \<in> set ?sl. disposed (heap c' q)"
    using ie ae by (simp add: fold_dispose_disposed)
  show "active_item c' =
           (case active_item c of None \<Rightarrow> None
            | Some a \<Rightarrow> if a \<in> set ?sl then None else Some a)"
    using ie ae by (simp split: option.splits)
  show "set (items c') = set (py_del_slice (items c) i (slice_end (items c) j)) \<union> set new"
    using ie ae by simp
  show "items c' = take (nat i) (items c) @ new
                      @ drop (max (nat i) (slice_index (length (items c)) (slice_end (items c) j)))
                          (items c)"
    if i: "0 \<le> i" "nat i \<le> length (items c)"
  proof -
    let ?a = "nat i" and ?b = "slice_index (length (items c)) (slice_end (items c) j)"
    from i have si: "slice_index (length (items c)) i = ?a" by (simp add: slice_index_nonneg)
    have d: "py_del_slice (items c) i (slice_end (items c) j)
             = take ?a (items c) @ drop (max ?a ?b) (items c)"
      by (simp add: py_del_slice_def si Let_def)
    from i have l: "length (take ?a (items c)) = ?a" by simp
    have "nat i \<le> length (items ?c3)" using i by (simp add: d)
    from insert_items_shape [OF ins i(1) this]
    have "items c4 = take ?a (take ?a (items c) @ drop (max ?a ?b) (items c)) @ new
                     @ drop ?a (take ?a (items c) @ drop (max ?a ?b) (items c))"
      by (simp add: d)
    with l have "items c4 = take ?a (items c) @ new @ drop (max ?a ?b) (items c)"
      by simp
    with ae show ?thesis by simp
  qed
qed

lemma replace_items_active_on_canvas:
  assumes "replace_items c new i j = Inr c'" and "active_on_canvas c"
  shows "active_on_canvas c'"
proof (cases "active_item c'")
  case None
  then show ?thesis by (simp add: active_on_canvas_def)
next
  case (Some a)
  let ?sl = "py_slice (items c) i (slice_end (items c) j)"
  from replace_items_effect(2) [OF assms(1)] Some
  have a: "active_item c = Some a" "a \<notin> set ?sl"
    by (auto split: option.splits if_splits)
  with assms(2) have "a \<in> set (items c)" by (simp add: active_on_canvas_def)
  with a(2) set_py_slices [of "items c" i "slice_end (items c) j"]
  have "a \<in> set (py_del_slice (items c) i (slice_end (items c) j))" by auto
  with replace_items_effect(3) [OF assms(1)] Some show ?thesis
    by (simp add: active_on_canvas_def)
qed

lemma distinct_py_slices:
  assumes "distinct xs"
  shows "set (py_slice xs i j) \<inter> set (py_del_slice xs i j) = {}"
proof -
  let ?a = "slice_index (length xs) i" and ?b = "slice_index (length xs) j"
  from assms py_slice_split [of xs i j]
  have "distinct (take ?a xs @ py_slice xs i j @ drop (max ?a ?b) xs)" by simp
  then show ?thesis by (auto simp: py_del_slice_def Let_def)
qed

lemma replace_items_total:
  assumes live: "\<forall>q \<in> set (items c) \<union> set new. control (heap c q) \<noteq> None"
    and d: "distinct (items c)"
    and n: "set new \<inter> set (py_slice (items c) i (slice_end (items c) j)) = {}"
  shows "\<exists>c'. replace_items c new i j = Inr c'"
proof -
  let ?sl = "py_slice (items c) i (slice_end (items c) j)"
  let ?dl = "py_del_slice (items c) i (slice_end (items c) j)"
  let ?c1 = "if (case active_item c of None \<Rightarrow> False | Some a \<Rightarrow> a \<in> set ?sl)
             then c\<lparr>active_item := None\<rparr> else c"
  let ?c3 = "(fold (\<lambda>r c. dispose c r) ?sl ?c1)\<lparr>items := ?dl\<rparr>"
  have h1: "heap ?c1 = heap c" by simp
  have keep: "\<And>q. q \<notin> set ?sl \<Longrightarrow> heap ?c3 q = heap c q"
    using h1 by (simp add: fold_dispose_other)
  have "\<forall>q \<in> set (items ?c3) \<union> set new. control (heap ?c3 q) \<noteq> None"
  proof
    fix q
    assume q: "q \<in> set (items ?c3) \<union> set new"
    then have "q \<notin> set ?sl"
      using distinct_py_slices [OF d, of i "slice_end (items c) j"] n by auto
    moreover from q have "q \<in> set (items c) \<union> set new"
      using set_py_del_slice [of "items c" i "slice_end (items c) j"] by auto
    ultimately show "control (heap ?c3 q) \<noteq> None"
      using live keep by simp
  qed
  from insert_items_total [OF this, of i] obtain c4
    where c4: "insert_items ?c3 new i = Inr c4"
      and l4: "\<forall>q \<in> set (items c4). control (heap c4 q) \<noteq> None" by blast
  from adjust_size_total [OF l4] obtain c' where "adjust_size c4 = Inr c'" by blast
  with c4 show ?thesis
    unfolding replace_items_unfold by simp
qed

text \<open>The list loses the slice and gains the replacement items, whatever the indices are.\<close>

lemma mset_py_insert: "mset (py_insert xs i x) = add_mset x (mset xs)"
proof -
  let ?a = "slice_index (length xs) i"
  have "mset (take ?a xs @ drop ?a xs) = mset xs"
    by (simp only: append_take_drop_id)
  then have "mset (take ?a xs) + mset (drop ?a xs) = mset xs"
    by (simp only: mset_append)
  then show ?thesis by (simp add: py_insert_def Let_def)
qed

lemma mset_py_slices: "mset xs = mset (py_slice xs i j) + mset (py_del_slice xs i j)"
proof -
  let ?a = "slice_index (length xs) i" and ?b = "slice_index (length xs) j"
  have "mset xs = mset (take ?a xs @ py_slice xs i j @ drop (max ?a ?b) xs)"
    using py_slice_split [of xs i j] by simp
  then show ?thesis by (simp add: py_del_slice_def Let_def)
qed

lemma insert_items_mset:
  "insert_items c new i = Inr c' \<Longrightarrow> mset (items c') = mset (items c) + mset new"
proof (induction new arbitrary: c i)
  case Nil
  then show ?case by simp
next
  case (Cons r rs)
  from Cons.prems obtain c1 where c1: "initialize_position c r = Inr c1"
    and rest: "insert_items (c1\<lparr>items := py_insert (items c1) i r\<rparr>) rs (i + 1) = Inr c'"
    by (auto simp: bindE_Inr_iff)
  have it: "items c1 = items c" by (rule initialize_position_effect [OF c1])
  from Cons.IH [OF rest] show ?case
    by (simp add: it mset_py_insert)
qed

lemma replace_items_removed:
  assumes "replace_items c new i j = Inr c'"
  shows "mset (items c') + mset (py_slice (items c) i (slice_end (items c) j)) =
           mset (items c) + mset new"
    and "\<forall>q \<in> set (py_slice (items c) i (slice_end (items c) j)). q \<notin> set new"
    and "distinct (items c) \<Longrightarrow>
           \<forall>q \<in> set (py_slice (items c) i (slice_end (items c) j)). q \<notin> set (items c')"
proof -
  let ?sl = "py_slice (items c) i (slice_end (items c) j)"
  let ?dl = "py_del_slice (items c) i (slice_end (items c) j)"
  let ?c1 = "if (case active_item c of None \<Rightarrow> False | Some a \<Rightarrow> a \<in> set ?sl)
             then c\<lparr>active_item := None\<rparr> else c"
  let ?c3 = "(fold (\<lambda>r c. dispose c r) ?sl ?c1)\<lparr>items := ?dl\<rparr>"
  from replace_items_steps [OF assms] obtain c4
    where ins: "insert_items ?c3 new i = Inr c4" and adj: "adjust_size c4 = Inr c'"
    by blast
  have i4: "items c' = items c4" using adjust_size_effect [OF adj] by simp
  have "mset (items c4) = mset ?dl + mset new"
    using insert_items_mset [OF ins] by simp
  with mset_py_slices [of "items c" i "slice_end (items c) j"]
  show m: "mset (items c') + mset ?sl = mset (items c) + mset new"
    by (simp add: i4)
  show n: "\<forall>q \<in> set ?sl. q \<notin> set new"
  proof
    fix q
    assume q: "q \<in> set ?sl"
    have "disposed (heap ?c3 q)" using q by (simp add: fold_dispose_disposed)
    then have "control (heap ?c3 q) = None" by (simp add: disposed_def)
    with insert_items_effect [OF ins] show "q \<notin> set new" by blast
  qed
  show "\<forall>q \<in> set ?sl. q \<notin> set (items c')" if d: "distinct (items c)"
  proof
    fix q
    assume q: "q \<in> set ?sl"
    with distinct_py_slices [OF d, of i "slice_end (items c) j"] have "q \<notin> set ?dl" by blast
    moreover from q n have "q \<notin> set new" by blast
    moreover have "set (items c') = set ?dl \<union> set new"
      by (rule replace_items_effect(3) [OF assms])
    ultimately show "q \<notin> set (items c')" by simp
  qed
qed

section \<open>The claims about the canvas geometry\<close>

text \<open>
  C7. \<open>ListCanvas.initial_position_for(dx, dy)\<close> returns a position \<open>(x, y)\<close> such that
  \<open>x + dx\<close> does not exceed the canvas width or \<open>x = 0\<close>: the right end of the
  bottom-most row at that row's \<open>y\<close> when the item fits there, and otherwise the left
  edge of the next row, below the bottom-most row (\<open>initial_position_spec\<close>). On a
  canvas with no items it returns \<open>(0, 0)\<close>. It returns whenever every item on the
  canvas has its control, and raises when one has not.
\<close>

theorem initial_position_for_spec:
  "(initial_position_for c dx dy = Inr (x, y) \<longrightarrow> x + dx \<le> fst (canvas_size c) \<or> x = 0) \<and>
   initial_position_for (c\<lparr>items := []\<rparr>) dx dy = Inr (0, 0) \<and>
   ((\<forall>r \<in> set (items c). control (heap c r) \<noteq> None) \<longrightarrow>
      initial_position_for c dx dy =
        Inr (initial_position_spec (rects c) (fst (canvas_size c)) dx)) \<and>
   ((\<exists>r \<in> set (items c). control (heap c r) = None) \<longrightarrow>
      initial_position_for c dx dy = Inl AttributeError)"
proof (intro conjI impI)
  assume "initial_position_for c dx dy = Inr (x, y)"
  then show "x + dx \<le> fst (canvas_size c) \<or> x = 0"
    by (auto simp: initial_position_for_def bindE_Inr_iff split_beta split: if_splits)
next
  show "initial_position_for (c\<lparr>items := []\<rparr>) dx dy = Inr (0, 0)"
    by (simp add: initial_position_for_def split_beta)
next
  assume "\<forall>r \<in> set (items c). control (heap c r) \<noteq> None"
  then show "initial_position_for c dx dy =
        Inr (initial_position_spec (rects c) (fst (canvas_size c)) dx)"
    by (rule initial_position_for_live)
next
  assume "\<exists>r \<in> set (items c). control (heap c r) = None"
  then show "initial_position_for c dx dy = Inl AttributeError"
    by (rule initial_position_for_dead)
qed

theorem initial_position_for_spec_witness:
  "initial_position_for canvas0 80 40 = Inr (0, 80) \<and>
   initial_position_spec (rects canvas0) (fst (canvas_size canvas0)) 80 = (0, 80) \<and>
   initial_position_for canvas0 10 40 = Inr (280, 20) \<and>
   initial_position_spec (rects canvas0) (fst (canvas_size canvas0)) 10 = (280, 20) \<and>
   280 + 10 \<le> fst (canvas_size canvas0) \<and>
   control (heap (dispose canvas0 1) 1) = None \<and>
   initial_position_for (dispose canvas0 1) 80 40 = Inl AttributeError"
proof -
  have l: "\<forall>r \<in> set (items canvas0). control (heap canvas0 r) \<noteq> None"
    by (simp add: canvas0_def item_a_def item_b_def)
  have r: "rects canvas0 = [\<lparr>rx = 10, ry = 20, rw = 100, rh = 50\<rparr>,
                            \<lparr>rx = 200, ry = 20, rw = 80, rh = 60\<rparr>]"
    by (simp add: rects_def rect_of_def canvas0_def item_a_def item_b_def)
  have w: "fst (canvas_size canvas0) = 300" by (simp add: canvas0_def)
  have y: "row_y (rects canvas0) = 20" by (simp add: r row_y_def)
  have i: "row_items (rects canvas0) = rects canvas0" by (simp add: row_items_def y) (simp add: r)
  have x: "row_right (rects canvas0) = 280" by (simp add: row_right_def y i) (simp add: r)
  have b: "row_bottom (rects canvas0) = 80" by (simp add: row_bottom_def y i) (simp add: r)
  have s1: "initial_position_spec (rects canvas0) (fst (canvas_size canvas0)) 80 = (0, 80)"
    by (simp add: initial_position_spec_def x y b w)
  have s2: "initial_position_spec (rects canvas0) (fst (canvas_size canvas0)) 10 = (280, 20)"
    by (simp add: initial_position_spec_def x y b w)
  have d: "control (heap (dispose canvas0 1) 1) = None"
    by (simp add: dispose_def canvas0_def item_b_def)
  have d': "\<exists>r \<in> set (items (dispose canvas0 1)). control (heap (dispose canvas0 1) r) = None"
    using d by (simp add: dispose_def canvas0_def item_b_def)
  from initial_position_for_spec [of canvas0 80 40] l s1
  have a1: "initial_position_for canvas0 80 40 = Inr (0, 80)" by simp
  from initial_position_for_spec [of canvas0 10 40] l s2
  have a2: "initial_position_for canvas0 10 40 = Inr (280, 20)" by simp
  from initial_position_for_spec [of canvas0 10 40 280 20] a2
  have a3: "280 + 10 \<le> fst (canvas_size canvas0)" by simp
  from initial_position_for_spec [of "dispose canvas0 1" 80 40] d'
  have a4: "initial_position_for (dispose canvas0 1) 80 40 = Inl AttributeError" by blast
  from a1 a2 a3 a4 s1 s2 d show ?thesis by simp
qed

text \<open>
  C2. \<open>ListCanvas._guide_lines()\<close> returns two dictionaries whose keys are exactly: the
  canvas boundary coordinates \<open>0\<close> and size minus one, and for each item on the canvas
  other than \<open>_drag_item\<close> its left and right edge (x keys) and its top and bottom edge
  (y keys); the dragged item contributes no edges. It returns whenever every item other
  than the dragged one has its control.
\<close>

theorem guide_lines_spec:
  "(guide_lines c = Inr (xs, ys) \<longrightarrow>
      fst ` set xs = {0, fst (canvas_size c) - 1} \<union> guide_xs_spec c (items c) \<and>
      fst ` set ys = {0, snd (canvas_size c) - 1} \<union> guide_ys_spec c (items c) \<and>
      distinct (map fst xs) \<and> distinct (map fst ys)) \<and>
   ((\<forall>r \<in> set (items c). Some r \<noteq> drag_item c \<longrightarrow> control (heap c r) \<noteq> None) \<longrightarrow>
      (\<exists>g. guide_lines c = Inr g))"
  using guide_lines_keys [of c xs ys] guide_lines_total [of c] by blast

theorem guide_lines_spec_witness:
  "guide_lines canvas_drag =
     Inr ([(0, ()), (299, ()), (200, ()), (280, ())], [(0, ()), (199, ()), (20, ()), (80, ())]) \<and>
   {0, 299, 200, 280} = {0, fst (canvas_size canvas_drag) - 1} \<union> guide_xs_spec canvas_drag (items canvas_drag) \<and>
   {0, 199, 20, 80} = {0, snd (canvas_size canvas_drag) - 1} \<union> guide_ys_spec canvas_drag (items canvas_drag) \<and>
   (\<exists>g. guide_lines canvas_drag = Inr g)"
proof -
  have g: "guide_lines canvas_drag =
     Inr ([(0, ()), (299, ()), (200, ()), (280, ())], [(0, ()), (199, ()), (20, ()), (80, ())])"
    by (simp add: guide_lines_def canvas_drag_def canvas0_def item_a_def item_b_def
          position_def size'_def)
  from guide_lines_spec [of canvas_drag "[(0, ()), (299, ()), (200, ()), (280, ())]"
                            "[(0, ()), (199, ()), (20, ()), (80, ())]"] g
  show ?thesis by auto
qed

text \<open>
  C8. \<open>ListCanvas.canvas_paint\<close>: when \<open>guide_info.visible\<close> is \<open>'drag'\<close>, the guide
  lines are drawn exactly when the canvas state is \<open>'dragging'\<close> and at least one item
  is present; when it is \<open>'never'\<close> they are never drawn; when it is \<open>'always'\<close> they are
  always drawn. Drawn means: a line across the painted size at every coordinate
  \<open>_guide_lines\<close> returns, which are the canvas boundaries and the edges of the items
  other than the dragged one; not drawn means that the guide-line step makes no call
  at all. The handler returns whenever the grid size is not zero and every item other
  than the dragged one has its control.
\<close>

theorem canvas_paint_guides:
  "(canvas_paint c = Inr p \<longrightarrow>
      (guide_visible (guide_info c) = Drag \<longrightarrow>
         guide_lines_drawn c p = (canvas_state c = ''dragging'' \<and> items c \<noteq> [])) \<and>
      (guide_visible (guide_info c) = Never \<longrightarrow> \<not> guide_lines_drawn c p) \<and>
      (guide_visible (guide_info c) = Always \<longrightarrow> guide_lines_drawn c p) \<and>
      (guide_lines_drawn c p \<longrightarrow> set (filter is_line (guide_ops p)) = guide_line_set c) \<and>
      (\<not> guide_lines_drawn c p \<longrightarrow> guide_ops p = [])) \<and>
   (grid_size (grid_info c) \<noteq> 0 \<and>
    (\<forall>r \<in> set (items c). Some r \<noteq> drag_item c \<longrightarrow> control (heap c r) \<noteq> None) \<longrightarrow>
      (\<exists>p. canvas_paint c = Inr p))"
proof (intro conjI impI)
  assume p: "canvas_paint c = Inr p" and v: "guide_visible (guide_info c) = Drag"
  from canvas_paint_drawn(1) [OF p] v
  show "guide_lines_drawn c p = (canvas_state c = ''dragging'' \<and> items c \<noteq> [])"
    by (simp add: guides_wanted_def)
next
  assume p: "canvas_paint c = Inr p" and v: "guide_visible (guide_info c) = Never"
  from canvas_paint_drawn(1) [OF p] v show "\<not> guide_lines_drawn c p"
    by (simp add: guides_wanted_def)
next
  assume p: "canvas_paint c = Inr p" and v: "guide_visible (guide_info c) = Always"
  from canvas_paint_drawn(1) [OF p] v show "guide_lines_drawn c p"
    by (simp add: guides_wanted_def)
next
  assume "canvas_paint c = Inr p" and "guide_lines_drawn c p"
  then show "set (filter is_line (guide_ops p)) = guide_line_set c"
    by (rule canvas_paint_drawn(2))
next
  assume "canvas_paint c = Inr p" and "\<not> guide_lines_drawn c p"
  then show "guide_ops p = []"
    by (rule canvas_paint_drawn(3))
next
  assume "grid_size (grid_info c) \<noteq> 0 \<and>
    (\<forall>r \<in> set (items c). Some r \<noteq> drag_item c \<longrightarrow> control (heap c r) \<noteq> None)"
  then show "\<exists>p. canvas_paint c = Inr p"
    using canvas_paint_total [of c] by blast
qed

theorem canvas_paint_guides_witness:
  "guide_visible (guide_info canvas_drag) = Drag \<and>
   canvas_state canvas_drag = ''dragging'' \<and> items canvas_drag \<noteq> [] \<and>
   (\<exists>p. canvas_paint canvas_drag = Inr p \<and> guide_lines_drawn canvas_drag p \<and>
        set (filter is_line (guide_ops p)) = guide_line_set canvas_drag \<and>
        DrawLine 280 0 280 200 \<in> set (guide_ops p) \<and>
        DrawLine 0 80 300 80 \<in> set (guide_ops p)) \<and>
   (\<exists>p. canvas_paint canvas0 = Inr p \<and> \<not> guide_lines_drawn canvas0 p \<and> guide_ops p = [])"
proof -
  have d: "guide_visible (guide_info canvas_drag) = Drag" "canvas_state canvas_drag = ''dragging''"
    "items canvas_drag \<noteq> []" "grid_size (grid_info canvas_drag) \<noteq> 0"
    "\<forall>r \<in> set (items canvas_drag). Some r \<noteq> drag_item canvas_drag \<longrightarrow>
        control (heap canvas_drag r) \<noteq> None"
    by (simp_all add: canvas_drag_def canvas0_def item_a_def item_b_def)
  have n: "guide_visible (guide_info canvas0) = Drag" "canvas_state canvas0 \<noteq> ''dragging''"
    "grid_size (grid_info canvas0) \<noteq> 0"
    "\<forall>r \<in> set (items canvas0). Some r \<noteq> drag_item canvas0 \<longrightarrow> control (heap canvas0 r) \<noteq> None"
    by (simp_all add: canvas0_def item_a_def item_b_def)
  from d canvas_paint_guides [of canvas_drag] obtain p where
    p: "canvas_paint canvas_drag = Inr p" by blast
  from n canvas_paint_guides [of canvas0] obtain q where
    q: "canvas_paint canvas0 = Inr q" by blast
  from p d canvas_paint_guides [of canvas_drag p]
  have dr: "guide_lines_drawn canvas_drag p" by simp
  with p canvas_paint_guides [of canvas_drag p]
  have s: "set (filter is_line (guide_ops p)) = guide_line_set canvas_drag" by blast
  have g: "guide_lines canvas_drag =
     Inr ([(0, ()), (299, ()), (200, ()), (280, ())], [(0, ()), (199, ()), (20, ()), (80, ())])"
    by (simp add: guide_lines_def canvas_drag_def canvas0_def item_a_def item_b_def
          position_def size'_def)
  have ps: "paint_size canvas_drag = (300, 200)"
    by (simp add: paint_size_def canvas_drag_def canvas0_def)
  from dr have l: "filter is_line (guide_ops p) =
      map (\<lambda>x. DrawLine x 0 x 200) [0, 299, 200, 280] @ map (\<lambda>y. DrawLine 0 y 300 y) [0, 199, 20, 80]"
    by (simp add: guide_lines_drawn_def g ps)
  have "DrawLine 280 0 280 200 \<in> set (filter is_line (guide_ops p))"
    "DrawLine 0 80 300 80 \<in> set (filter is_line (guide_ops p))"
    unfolding l by simp_all
  then have m: "DrawLine 280 0 280 200 \<in> set (guide_ops p)" "DrawLine 0 80 300 80 \<in> set (guide_ops p)"
    by simp_all
  from q n canvas_paint_guides [of canvas0 q]
  have nd: "\<not> guide_lines_drawn canvas0 q" by simp
  with q canvas_paint_guides [of canvas0 q] have e: "guide_ops q = []" by blast
  from d p dr s m q nd e show ?thesis by blast
qed

text \<open>
  C1. With snap distance \<open>d\<close>: if \<open>d = 0\<close>, \<open>snap_x(x, dx)\<close> returns \<open>dx\<close> unchanged; if
  \<open>d > 0\<close> and \<open>snap_x(x, dx)\<close> returns some \<open>dx'\<close> different from \<open>dx\<close>, the snapped edge
  \<open>x + dx'\<close> lies on a grid line (grid snapping on) or on a guide line of the current
  drag-guide set (guide snapping on), and it is at most \<open>d\<close> pixels from \<open>x + dx\<close>. The
  same holds for \<open>snap_y\<close>.
\<close>

theorem snap_spec:
  "(distance (snap_info c) = 0 \<longrightarrow> snap_x c x dx = Inr dx \<and> snap_y c y dy = Inr dy) \<and>
   (0 < distance (snap_info c) \<and> snap_x c x dx = Inr dx' \<and> dx' \<noteq> dx \<longrightarrow>
      (on_grid_line (grid_info c) (x + dx') \<or> on_guide_x c (x + dx')) \<and>
      \<bar>(x + dx) - (x + dx')\<bar> \<le> distance (snap_info c)) \<and>
   (0 < distance (snap_info c) \<and> snap_y c y dy = Inr dy' \<and> dy' \<noteq> dy \<longrightarrow>
      (on_grid_line (grid_info c) (y + dy') \<or> on_guide_y c (y + dy')) \<and>
      \<bar>(y + dy) - (y + dy')\<bar> \<le> distance (snap_info c))"
  using snap_x_zero [of c x dx] snap_y_zero [of c y dy]
    snap_x_snapped [of c x dx dx'] snap_y_snapped [of c y dy dy']
  by blast

theorem snap_spec_witness:
  "0 < distance (snap_info canvas_drag) \<and>
   snap_x canvas_drag 40 7 = Inr 10 \<and> (10::int) \<noteq> 7 \<and>
   on_grid_line (grid_info canvas_drag) (40 + 10) \<and>
   \<bar>(40 + 7) - (40 + 10)\<bar> \<le> distance (snap_info canvas_drag) \<and>
   snap_y canvas_drag 10 5 = Inr 10 \<and> (10::int) \<noteq> 5 \<and>
   on_guide_y canvas_drag (10 + 10) \<and>
   \<bar>(10 + 5) - (10 + 10)\<bar> \<le> distance (snap_info canvas_drag) \<and>
   distance (snap_info (canvas0\<lparr>snap_info := \<lparr>distance = 0\<rparr>\<rparr>)) = 0 \<and>
   snap_x (canvas0\<lparr>snap_info := \<lparr>distance = 0\<rparr>\<rparr>) 40 7 = Inr 7"
proof -
  have d: "0 < distance (snap_info canvas_drag)"
    by (simp add: canvas_drag_def canvas0_def)
  have x: "snap_x canvas_drag 40 7 = Inr 10"
    by (simp add: snap_x_def canvas_drag_def canvas0_def)
  have y: "snap_y canvas_drag 10 5 = Inr 10"
    by (simp add: snap_y_def canvas_drag_def canvas0_def)
  have gx: "on_grid_line (grid_info canvas_drag) (40 + 10)"
    by (simp add: on_grid_line_def canvas_drag_def canvas0_def)
  have ny: "\<not> on_grid_line (grid_info canvas_drag) (10 + 10)"
    by (simp add: on_grid_line_def canvas_drag_def canvas0_def)
  have z: "distance (snap_info (canvas0\<lparr>snap_info := \<lparr>distance = 0\<rparr>\<rparr>)) = 0"
    by simp
  from snap_spec [of canvas_drag 40 7 10 5 10 10] d x y gx ny
    snap_spec [of "canvas0\<lparr>snap_info := \<lparr>distance = 0\<rparr>\<rparr>" 40 7 0 0 0 0] z
  show ?thesis by simp
qed

text \<open>
  C4. When the x-axis bits of the drag mode are clear (\<open>mode & 0x05 == 0\<close>),
  \<open>ListCanvasItem.resize\<close> does the same whatever the mouse delta \<open>dx\<close> is, and leaves the
  item at x-position \<open>xo\<close> with width \<open>dxo\<close>; when the y-axis bits are clear
  (\<open>mode & 0x0A == 0\<close>) the same holds for \<open>dy\<close>, \<open>yo\<close> and \<open>dyo\<close>. The method returns
  whenever the grid size is not zero, the drag guides are present and the item has its
  control.
\<close>

theorem resize_frame:
  "(mode AND 5 = 0 \<longrightarrow>
      resize c r mode xo yo dxo dyo dx dy = resize c r mode xo yo dxo dyo dx2 dy \<and>
      (resize c r mode xo yo dxo dyo dx dy = Inr c' \<longrightarrow>
         (\<exists>y h. position (heap c' r) = Inr (xo, y) \<and> size' (heap c' r) = Inr (dxo, h)))) \<and>
   (mode AND 10 = 0 \<longrightarrow>
      resize c r mode xo yo dxo dyo dx dy = resize c r mode xo yo dxo dyo dx dy2 \<and>
      (resize c r mode xo yo dxo dyo dx dy = Inr c' \<longrightarrow>
         (\<exists>x w. position (heap c' r) = Inr (x, yo) \<and> size' (heap c' r) = Inr (w, dyo)))) \<and>
   (grid_size (grid_info c) \<noteq> 0 \<and> drag_guides c \<noteq> None \<and> control (heap c r) \<noteq> None \<longrightarrow>
      (\<exists>c'. resize c r mode xo yo dxo dyo dx dy = Inr c'))"
proof (intro conjI impI)
  assume "mode AND 5 = 0"
  then show "resize c r mode xo yo dxo dyo dx dy = resize c r mode xo yo dxo dyo dx2 dy"
    by (simp add: resize_def)
next
  assume m: "mode AND 5 = 0" and r: "resize c r mode xo yo dxo dyo dx dy = Inr c'"
  from resize_geometry [OF r] m resize_x_frame [OF m, of c xo dxo 0]
  show "\<exists>y h. position (heap c' r) = Inr (xo, y) \<and> size' (heap c' r) = Inr (dxo, h)"
    by auto
next
  assume "mode AND 10 = 0"
  then show "resize c r mode xo yo dxo dyo dx dy = resize c r mode xo yo dxo dyo dx dy2"
    by (simp add: resize_def)
next
  assume m: "mode AND 10 = 0" and r: "resize c r mode xo yo dxo dyo dx dy = Inr c'"
  from resize_geometry [OF r] m resize_y_frame [OF m, of c yo dyo 0]
  show "\<exists>x w. position (heap c' r) = Inr (x, yo) \<and> size' (heap c' r) = Inr (w, dyo)"
    by auto
next
  assume "grid_size (grid_info c) \<noteq> 0 \<and> drag_guides c \<noteq> None \<and> control (heap c r) \<noteq> None"
  then show "\<exists>c'. resize c r mode xo yo dxo dyo dx dy = Inr c'"
    using resize_total [of c r mode xo yo dxo dyo dx dy] by simp
qed

theorem resize_frame_witness:
  "(10::int) AND 5 = 0 \<and>
   (\<exists>c'. resize canvas_drag 0 10 10 20 100 50 33 (- 15) = Inr c' \<and>
         position (heap c' 0) = Inr (10, 0) \<and> size' (heap c' 0) = Inr (100, 70)) \<and>
   (5::int) AND 10 = 0 \<and>
   (\<exists>c'. resize canvas_drag 0 5 10 20 100 50 (- 4) 99 = Inr c' \<and>
         position (heap c' 0) = Inr (0, 20) \<and> size' (heap c' 0) = Inr (110, 50))"
proof -
  have pre: "grid_size (grid_info canvas_drag) \<noteq> 0 \<and> drag_guides canvas_drag \<noteq> None \<and>
             control (heap canvas_drag 0) \<noteq> None"
    by (simp add: canvas_drag_def canvas0_def item_a_def)
  have m: "(10::int) AND 5 = 0" "(5::int) AND 10 = 0" by simp_all
  have sy: "snap_y canvas_drag 20 (- 15) = Inr (- 20)"
    by (simp add: snap_y_def canvas_drag_def canvas0_def)
  have sx: "snap_x canvas_drag 10 (- 4) = Inr (- 10)"
    by (simp add: snap_x_def canvas_drag_def canvas0_def)
  from pre resize_frame [of 10 canvas_drag 0 10 20 100 50 33 "- 15"]
  obtain c1 where c1: "resize canvas_drag 0 10 10 20 100 50 33 (- 15) = Inr c1" by blast
  from pre resize_frame [of 5 canvas_drag 0 10 20 100 50 "- 4" 99]
  obtain c2 where c2: "resize canvas_drag 0 5 10 20 100 50 (- 4) 99 = Inr c2" by blast
  from resize_geometry [OF c1] sy
  have g1: "position (heap c1 0) = Inr (10, 0) \<and> size' (heap c1 0) = Inr (100, 70)"
    by (simp add: resize_x_def resize_y_def)
  from resize_geometry [OF c2] sx
  have g2: "position (heap c2 0) = Inr (0, 20) \<and> size' (heap c2 0) = Inr (110, 50)"
    by (simp add: resize_x_def resize_y_def)
  from m c1 c2 g1 g2 show ?thesis by blast
qed

text \<open>
  C3. \<open>ListCanvasItem._set_cursor\<close>, for a cursor position \<open>(x, y)\<close> and an item of size
  \<open>(dx, dy)\<close> that has a theme: outside the item the mode is 0; inside, when the adapter
  permits resizing, the mode is 15 when \<open>x < 4\<close> and \<open>y < 4\<close>, 7 when \<open>x < 4\<close> and
  \<open>y \<ge> dy - 4\<close>, 5 when \<open>x < 4\<close> otherwise, 11 when \<open>x \<ge> dx - 4\<close> and \<open>y < 4\<close>, 3 when
  \<open>x \<ge> dx - 4\<close> and \<open>y \<ge> dy - 4\<close>, 1 when \<open>x \<ge> dx - 4\<close> otherwise, 10 when only
  \<open>y < 4\<close>, 2 when only \<open>y \<ge> dy - 4\<close>; when no resize mode applies, the adapter permits
  moving and \<open>y\<close> is in the title band, the mode is 12; otherwise it is 0. The cases are
  taken in this order (\<open>cursor_mode_spec\<close>).
\<close>

theorem set_cursor_spec:
  "control it = Some w \<and> w_size w = (dx, dy) \<and> theme it = Some th \<longrightarrow>
     (\<exists>it'. set_cursor ad it x y =
        Inr (it', cursor_mode_spec (get_can_resize ad (object it)) (get_can_move ad (object it))
                    (xtop (slice th)) (xbottom (slice th)) x y dx dy))"
  using set_cursor_mode [of it w dx dy th ad x y] by blast

theorem set_cursor_spec_witness:
  "control item_a = Some \<lparr>w_position = (10, 20), w_size = (100, 50), w_cursor = CURSOR_ARROW\<rparr> \<and>
   theme item_a = Some theme0 \<and>
   (\<exists>it'. set_cursor adapter0 item_a 2 2 = Inr (it', 15)) \<and>
   (\<exists>it'. set_cursor adapter0 item_a 98 47 = Inr (it', 3)) \<and>
   (\<exists>it'. set_cursor adapter0 item_a 50 10 = Inr (it', 12)) \<and>
   (\<exists>it'. set_cursor adapter0 item_a 50 30 = Inr (it', 0)) \<and>
   (\<exists>it'. set_cursor adapter0 item_a 100 30 = Inr (it', 0))"
proof -
  let ?w = "\<lparr>w_position = (10, 20), w_size = (100, 50), w_cursor = CURSOR_ARROW\<rparr>"
  have pre: "control item_a = Some ?w \<and> w_size ?w = (100, 50) \<and> theme item_a = Some theme0"
    by (simp add: item_a_def)
  have a: "get_can_resize adapter0 (object item_a)" "get_can_move adapter0 (object item_a)"
    "xtop (slice theme0) = 20" "xbottom (slice theme0) = 5"
    by (simp_all add: adapter0_def theme0_def)
  from pre a set_cursor_spec [of item_a ?w 100 50 theme0 adapter0 2 2]
    set_cursor_spec [of item_a ?w 100 50 theme0 adapter0 98 47]
    set_cursor_spec [of item_a ?w 100 50 theme0 adapter0 50 10]
    set_cursor_spec [of item_a ?w 100 50 theme0 adapter0 50 30]
    set_cursor_spec [of item_a ?w 100 50 theme0 adapter0 100 30]
  show ?thesis by (simp add: cursor_mode_spec_def)
qed

section \<open>The claims about activation and the item list\<close>

text \<open>
  C5. \<open>ListCanvas.activate(item)\<close>: when \<open>item\<close> is already the active item, nothing
  changes. Otherwise the previously active item, if any, is set to state \<open>'inactive'\<close>
  and \<open>set_deactivated\<close> is fired for its object; then \<open>active_item\<close> becomes \<open>item\<close> and,
  if it is not \<open>None\<close>, its state becomes \<open>'active'\<close> and \<open>set_activated\<close> is fired for its
  object; no other item changes state. So the invariant that only the active item is in
  state \<open>'active'\<close> is kept, and after the call at most one item on the canvas is in
  state \<open>'active'\<close>.
\<close>

theorem activate_spec:
  "activate c (active_item c) = c \<and>
   (item \<noteq> active_item c \<longrightarrow>
      active_item (activate c item) = item \<and>
      items (activate c item) = items c \<and>
      (\<forall>q. state (heap (activate c item) q) =
             (if item = Some q then ''active''
              else if active_item c = Some q then ''inactive''
              else state (heap c q))) \<and>
      filter is_notification (trace (activate c item)) =
        filter is_notification (trace c)
        @ (case active_item c of None \<Rightarrow> [] | Some a \<Rightarrow> [SetDeactivated (object (heap c a))])
        @ (case item of None \<Rightarrow> [] | Some r \<Rightarrow> [SetActivated (object (heap c r))])) \<and>
   (single_active c \<longrightarrow>
      single_active (activate c item) \<and> length (active_items (activate c item)) \<le> 1)"
proof (intro conjI impI allI)
  show "activate c (active_item c) = c" by (rule activate_same)
next
  show "active_item (activate c item) = item" by (rule activate_active_item)
next
  show "items (activate c item) = items c" by (rule activate_items)
next
  fix q
  assume "item \<noteq> active_item c"
  then show "state (heap (activate c item) q) =
             (if item = Some q then ''active''
              else if active_item c = Some q then ''inactive''
              else state (heap c q))"
    by (rule activate_state)
next
  assume "item \<noteq> active_item c"
  then show "filter is_notification (trace (activate c item)) =
        filter is_notification (trace c)
        @ (case active_item c of None \<Rightarrow> [] | Some a \<Rightarrow> [SetDeactivated (object (heap c a))])
        @ (case item of None \<Rightarrow> [] | Some r \<Rightarrow> [SetActivated (object (heap c r))])"
    by (rule activate_notifications)
next
  assume "single_active c"
  then show "single_active (activate c item)" by (rule activate_single_active)
next
  assume "single_active c"
  then have "single_active (activate c item)" by (rule activate_single_active)
  then show "length (active_items (activate c item)) \<le> 1" by (rule single_active_length)
qed

theorem activate_spec_witness:
  "single_active (activate canvas0 (Some 0)) \<and>
   Some 1 \<noteq> active_item (activate canvas0 (Some 0)) \<and>
   active_item (activate (activate canvas0 (Some 0)) (Some 1)) = Some 1 \<and>
   state (heap (activate (activate canvas0 (Some 0)) (Some 1)) 0) = ''inactive'' \<and>
   state (heap (activate (activate canvas0 (Some 0)) (Some 1)) 1) = ''active'' \<and>
   filter is_notification (trace (activate (activate canvas0 (Some 0)) (Some 1))) =
     [SetActivated 100, SetDeactivated 100, SetActivated 101] \<and>
   length (active_items (activate (activate canvas0 (Some 0)) (Some 1))) \<le> 1"
proof -
  let ?c1 = "activate canvas0 (Some 0)"
  have s0: "single_active canvas0"
    by (simp add: single_active_def canvas0_def item_a_def item_b_def)
  have n0: "Some 0 \<noteq> active_item canvas0" by (simp add: canvas0_def)
  from activate_spec [of canvas0 "Some 0"] s0 n0
  have c1: "single_active ?c1" "active_item ?c1 = Some 0"
    "filter is_notification (trace ?c1) = [SetActivated 100]"
    "state (heap ?c1 1) = ''inactive''"
    by (simp_all add: canvas0_def item_a_def item_b_def)
  have o: "object (heap ?c1 0) = 100" "object (heap ?c1 1) = 101"
    by (simp_all add: activate_def set_state_def notify_def canvas0_def item_a_def item_b_def)
  from c1 have n1: "Some 1 \<noteq> active_item ?c1" by simp
  from activate_spec [of ?c1 "Some 1"] c1 n1 o show ?thesis by simp
qed

text \<open>
  C10, as stated, fails for a negative \<open>i\<close>: \<open>list.insert(-1, item)\<close> puts the first
  replacement before the last remaining item, and the next insertion is at index 0. On
  the canvas with items \<open>[0, 1, 2]\<close>, replacing \<open>[-1:]\<close> by \<open>[3, 4]\<close> gives
  \<open>[4, 0, 3, 1]\<close>: the replacements are neither adjacent nor in their given order.
\<close>

theorem replace_items_negative_index_counterexample:
  "map_sum id items (replace_items canvas3 [3, 4] (- 1) (- 1)) = Inr [4, 0, 3, 1]"
  by (simp add: replace_items_def Let_def canvas3_def canvas0_def adapter0_def item_n_def
      item_a_def item_b_def py_slice_def py_del_slice_def py_insert_def slice_index_def
      dispose_def initialize_position_def initial_extent_def initial_position_for_def
      position_def size'_def set_dimensions_def adjust_size_def)

text \<open>
  C10, amended. Whenever \<open>replace_items(new, i, j)\<close> returns, for every \<open>i\<close> and \<open>j\<close>:
  every item of the replaced slice \<open>[i:j]\<close> (the whole tail when \<open>j < 0\<close>) has been
  disposed and removed from the items list (the list loses the slice and gains the
  replacement items, none of which is in the slice; when the items were distinct no
  item of the slice is left in the list), \<open>active_item\<close> is \<open>None\<close> if it was a member
  of the slice and unchanged otherwise, and the invariant that \<open>active_item\<close>, when not
  \<open>None\<close>, is an element of \<open>items\<close> is preserved. When \<open>0 \<le> i \<le> len(items)\<close>, the
  replacement items occupy the positions \<open>i, i + 1, ...\<close> in their given order: the
  list becomes \<open>items[:i] + new + items[max(i, j):]\<close>. The method returns whenever the
  items on the canvas are distinct, they and the replacement items have their
  controls, and no replacement item is in the replaced slice.
\<close>

theorem replace_items_spec:
  "(replace_items c new i j = Inr c' \<longrightarrow>
      (\<forall>q \<in> set (py_slice (items c) i (slice_end (items c) j)).
          disposed (heap c' q) \<and> q \<notin> set new) \<and>
      mset (items c') + mset (py_slice (items c) i (slice_end (items c) j)) =
        mset (items c) + mset new \<and>
      (distinct (items c) \<longrightarrow>
         (\<forall>q \<in> set (py_slice (items c) i (slice_end (items c) j)). q \<notin> set (items c'))) \<and>
      active_item c' =
        (case active_item c of None \<Rightarrow> None
         | Some a \<Rightarrow> if a \<in> set (py_slice (items c) i (slice_end (items c) j))
                     then None else Some a) \<and>
      (active_on_canvas c \<longrightarrow> active_on_canvas c') \<and>
      (0 \<le> i \<and> nat i \<le> length (items c) \<longrightarrow>
         items c' = take (nat i) (items c) @ new
                    @ drop (max (nat i) (slice_index (length (items c)) (slice_end (items c) j)))
                        (items c) \<and>
         (\<forall>k < length new. items c' ! (nat i + k) = new ! k))) \<and>
   ((\<forall>q \<in> set (items c) \<union> set new. control (heap c q) \<noteq> None) \<and> distinct (items c) \<and>
    set new \<inter> set (py_slice (items c) i (slice_end (items c) j)) = {} \<longrightarrow>
      (\<exists>c'. replace_items c new i j = Inr c'))"
proof (intro conjI impI)
  assume r: "replace_items c new i j = Inr c'"
  show "\<forall>q \<in> set (py_slice (items c) i (slice_end (items c) j)).
          disposed (heap c' q) \<and> q \<notin> set new"
    using replace_items_effect(1) [OF r] replace_items_removed(2) [OF r] by blast
  show "mset (items c') + mset (py_slice (items c) i (slice_end (items c) j)) =
        mset (items c) + mset new"
    by (rule replace_items_removed(1) [OF r])
  show "active_item c' =
        (case active_item c of None \<Rightarrow> None
         | Some a \<Rightarrow> if a \<in> set (py_slice (items c) i (slice_end (items c) j))
                     then None else Some a)"
    by (rule replace_items_effect(2) [OF r])
next
  assume "replace_items c new i j = Inr c'" and "distinct (items c)"
  then show "\<forall>q \<in> set (py_slice (items c) i (slice_end (items c) j)). q \<notin> set (items c')"
    by (rule replace_items_removed(3))
next
  assume "replace_items c new i j = Inr c'" and "active_on_canvas c"
  then show "active_on_canvas c'" by (rule replace_items_active_on_canvas)
next
  assume r: "replace_items c new i j = Inr c'"
    and i: "0 \<le> i \<and> nat i \<le> length (items c)"
  from replace_items_effect(4) [OF r] i
  show "items c' = take (nat i) (items c) @ new
                   @ drop (max (nat i) (slice_index (length (items c)) (slice_end (items c) j)))
                       (items c)"
    by simp
next
  assume r: "replace_items c new i j = Inr c'"
    and i: "0 \<le> i \<and> nat i \<le> length (items c)"
  from replace_items_effect(4) [OF r] i
  have s: "items c' = take (nat i) (items c) @ new
                   @ drop (max (nat i) (slice_index (length (items c)) (slice_end (items c) j)))
                       (items c)"
    by simp
  from i have l: "length (take (nat i) (items c)) = nat i" by simp
  show "\<forall>k < length new. items c' ! (nat i + k) = new ! k"
  proof (intro allI impI)
    fix k
    assume "k < length new"
    then show "items c' ! (nat i + k) = new ! k"
      using l by (simp add: s nth_append)
  qed
next
  assume "(\<forall>q \<in> set (items c) \<union> set new. control (heap c q) \<noteq> None) \<and> distinct (items c) \<and>
    set new \<inter> set (py_slice (items c) i (slice_end (items c) j)) = {}"
  then show "\<exists>c'. replace_items c new i j = Inr c'"
    using replace_items_total [of c new i j] by blast
qed

theorem replace_items_spec_witness:
  "active_on_canvas canvas3 \<and> distinct (items canvas3) \<and>
   (0::int) \<le> 1 \<and> nat 1 \<le> length (items canvas3) \<and>
   (\<exists>c'. replace_items canvas3 [3, 4] 1 2 = Inr c' \<and> items c' = [0, 3, 4, 2] \<and>
         disposed (heap c' 1) \<and> 1 \<notin> set (items c') \<and> active_item c' = Some 2 \<and>
         active_on_canvas c') \<and>
   (\<exists>c'. replace_items canvas3 [3] 2 (- 1) = Inr c' \<and> items c' = [0, 1, 3] \<and>
         disposed (heap c' 2) \<and> 2 \<notin> set (items c') \<and> active_item c' = None \<and>
         active_on_canvas c') \<and>
   (\<exists>c'. replace_items canvas3 [3, 4] (- 1) (- 1) = Inr c' \<and>
         disposed (heap c' 2) \<and> 2 \<notin> set (items c') \<and> active_item c' = None \<and>
         active_on_canvas c')"
proof -
  have a: "active_on_canvas canvas3"
    by (simp add: active_on_canvas_def canvas3_def)
  have it: "items canvas3 = [0, 1, 2]" "active_item canvas3 = Some 2"
    by (simp_all add: canvas3_def)
  have live: "\<forall>q. control (heap canvas3 q) \<noteq> None"
    by (simp add: canvas3_def item_a_def item_b_def item_n_def)
  have d: "distinct (items canvas3)" by (simp add: it)
  have s1: "py_slice (items canvas3) 1 (slice_end (items canvas3) 2) = [1]"
    "slice_index (length (items canvas3)) (slice_end (items canvas3) 2) = 2"
    by (simp_all add: it py_slice_def slice_end_def slice_index_def)
  have s2: "py_slice (items canvas3) 2 (slice_end (items canvas3) (- 1)) = [2]"
    "slice_index (length (items canvas3)) (slice_end (items canvas3) (- 1)) = 3"
    by (simp_all add: it py_slice_def slice_end_def slice_index_def)
  have s3: "py_slice (items canvas3) (- 1) (slice_end (items canvas3) (- 1)) = [2]"
    by (simp add: it py_slice_def slice_end_def slice_index_def)
  have pre1: "(\<forall>q \<in> set (items canvas3) \<union> set [3, 4]. control (heap canvas3 q) \<noteq> None) \<and>
      distinct (items canvas3) \<and>
      set [3, 4] \<inter> set (py_slice (items canvas3) 1 (slice_end (items canvas3) 2)) = {}"
    using live d by (simp add: s1)
  have pre2: "(\<forall>q \<in> set (items canvas3) \<union> set [3]. control (heap canvas3 q) \<noteq> None) \<and>
      distinct (items canvas3) \<and>
      set [3] \<inter> set (py_slice (items canvas3) 2 (slice_end (items canvas3) (- 1))) = {}"
    using live d by (simp add: s2)
  have pre3: "(\<forall>q \<in> set (items canvas3) \<union> set [3, 4]. control (heap canvas3 q) \<noteq> None) \<and>
      distinct (items canvas3) \<and>
      set [3, 4] \<inter> set (py_slice (items canvas3) (- 1) (slice_end (items canvas3) (- 1))) = {}"
    using live d by (simp add: s3)
  have i1: "(0::int) \<le> 1 \<and> nat 1 \<le> length (items canvas3)" by (simp add: it)
  have i2: "(0::int) \<le> 2 \<and> nat 2 \<le> length (items canvas3)" by (simp add: it)
  from replace_items_spec [of canvas3 "[3, 4]" 1 2] pre1
  obtain c1 where c1: "replace_items canvas3 [3, 4] 1 2 = Inr c1" by blast
  from replace_items_spec [of canvas3 "[3]" 2 "- 1"] pre2
  obtain c2 where c2: "replace_items canvas3 [3] 2 (- 1) = Inr c2" by blast
  from replace_items_spec [of canvas3 "[3, 4]" "- 1" "- 1"] pre3
  obtain c3 where c3: "replace_items canvas3 [3, 4] (- 1) (- 1) = Inr c3" by blast
  from replace_items_spec [of canvas3 "[3, 4]" 1 2 c1] c1 a i1 d
  have "(\<forall>q \<in> set (py_slice (items canvas3) 1 (slice_end (items canvas3) 2)).
           disposed (heap c1 q) \<and> q \<notin> set (items c1)) \<and>
      active_item c1 =
        (case active_item canvas3 of None \<Rightarrow> None
         | Some a \<Rightarrow> if a \<in> set (py_slice (items canvas3) 1 (slice_end (items canvas3) 2))
                     then None else Some a) \<and>
      active_on_canvas c1 \<and>
      items c1 = take (nat 1) (items canvas3) @ [3, 4]
                    @ drop (max (nat 1) (slice_index (length (items canvas3)) (slice_end (items canvas3) 2)))
                        (items canvas3)"
    by blast
  then have r1: "items c1 = [0, 3, 4, 2] \<and> disposed (heap c1 1) \<and> 1 \<notin> set (items c1) \<and>
            active_item c1 = Some 2 \<and> active_on_canvas c1"
    unfolding s1 it(2) by (simp add: it)
  from replace_items_spec [of canvas3 "[3]" 2 "- 1" c2] c2 a i2 d
  have "(\<forall>q \<in> set (py_slice (items canvas3) 2 (slice_end (items canvas3) (- 1))).
           disposed (heap c2 q) \<and> q \<notin> set (items c2)) \<and>
      active_item c2 =
        (case active_item canvas3 of None \<Rightarrow> None
         | Some a \<Rightarrow> if a \<in> set (py_slice (items canvas3) 2 (slice_end (items canvas3) (- 1)))
                     then None else Some a) \<and>
      active_on_canvas c2 \<and>
      items c2 = take (nat 2) (items canvas3) @ [3]
                    @ drop (max (nat 2) (slice_index (length (items canvas3)) (slice_end (items canvas3) (- 1))))
                        (items canvas3)"
    by blast
  then have r2: "items c2 = [0, 1, 3] \<and> disposed (heap c2 2) \<and> 2 \<notin> set (items c2) \<and>
            active_item c2 = None \<and> active_on_canvas c2"
    unfolding s2 it(2) by (simp add: it)
  from replace_items_spec [of canvas3 "[3, 4]" "- 1" "- 1" c3] c3 a d
  have "(\<forall>q \<in> set (py_slice (items canvas3) (- 1) (slice_end (items canvas3) (- 1))).
           disposed (heap c3 q) \<and> q \<notin> set (items c3)) \<and>
      active_item c3 =
        (case active_item canvas3 of None \<Rightarrow> None
         | Some a \<Rightarrow> if a \<in> set (py_slice (items canvas3) (- 1) (slice_end (items canvas3) (- 1)))
                     then None else Some a) \<and>
      active_on_canvas c3"
    by blast
  then have r3: "disposed (heap c3 2) \<and> 2 \<notin> set (items c3) \<and> active_item c3 = None \<and>
            active_on_canvas c3"
    unfolding s3 it(2) by simp
  from a d i1 c1 c2 c3 r1 r2 r3 show ?thesis by blast
qed

section \<open>The claims about the adapter\<close>

lemma truthy_atheme: "is_atheme v \<Longrightarrow> truthy v = (v \<noteq> VNone)"
  by (cases v) simp_all

lemma get_theme_inactive_some:
  "result_for s ''get_theme_inactive'' item None = (Inr v, s1) \<Longrightarrow> is_atheme v \<Longrightarrow> v \<noteq> VNone \<Longrightarrow>
     get_theme_inactive s item = (Inr v, s1)"
  by (simp add: get_theme_inactive_def truthy_atheme)

lemma get_theme_inactive_none:
  "result_for s ''get_theme_inactive'' item None = (Inr VNone, s1) \<Longrightarrow>
     get_theme_inactive s item = result_for s1 ''get_theme_active'' item None"
  by (simp add: get_theme_inactive_def)

lemma get_theme_hover_some:
  "result_for s ''get_theme_hover'' item None = (Inr v, s1) \<Longrightarrow> is_atheme v \<Longrightarrow> v \<noteq> VNone \<Longrightarrow>
     get_theme_hover s item = (Inr v, s1)"
  by (simp add: get_theme_hover_def truthy_atheme)

lemma get_theme_hover_none:
  "result_for s ''get_theme_hover'' item None = (Inr VNone, s1) \<Longrightarrow>
     get_theme_hover s item = get_theme_inactive s1 item"
  by (simp add: get_theme_hover_def get_theme_inactive_def)

text \<open>
  C9. \<open>get_theme_inactive\<close> returns the resolved inactive theme when it is not \<open>None\<close>
  and otherwise the resolved active theme; \<open>get_theme_hover\<close> returns the first result
  that is not \<open>None\<close> among the resolved hover, inactive and active themes, in that
  order. The resolutions are the calls of \<open>_result_for\<close>, made one after the other; a
  resolved theme is \<open>None\<close> or a theme.
\<close>

theorem get_theme_fallback:
  "(result_for s ''get_theme_inactive'' item None = (Inr vi, s1) \<and> is_atheme vi \<and> vi \<noteq> VNone \<longrightarrow>
      get_theme_inactive s item = (Inr vi, s1)) \<and>
   (result_for s ''get_theme_inactive'' item None = (Inr VNone, s1) \<longrightarrow>
      get_theme_inactive s item = result_for s1 ''get_theme_active'' item None) \<and>
   (result_for s ''get_theme_hover'' item None = (Inr vh, s1) \<and> is_atheme vh \<and> vh \<noteq> VNone \<longrightarrow>
      get_theme_hover s item = (Inr vh, s1)) \<and>
   (result_for s ''get_theme_hover'' item None = (Inr VNone, s1) \<and>
    result_for s1 ''get_theme_inactive'' item None = (Inr vi, s2) \<and> is_atheme vi \<and> vi \<noteq> VNone \<longrightarrow>
      get_theme_hover s item = (Inr vi, s2)) \<and>
   (result_for s ''get_theme_hover'' item None = (Inr VNone, s1) \<and>
    result_for s1 ''get_theme_inactive'' item None = (Inr VNone, s2) \<longrightarrow>
      get_theme_hover s item = result_for s2 ''get_theme_active'' item None)"
proof (intro conjI impI)
  assume "result_for s ''get_theme_inactive'' item None = (Inr vi, s1) \<and> is_atheme vi \<and> vi \<noteq> VNone"
  then show "get_theme_inactive s item = (Inr vi, s1)"
    by (simp add: get_theme_inactive_some)
next
  assume "result_for s ''get_theme_inactive'' item None = (Inr VNone, s1)"
  then show "get_theme_inactive s item = result_for s1 ''get_theme_active'' item None"
    by (rule get_theme_inactive_none)
next
  assume "result_for s ''get_theme_hover'' item None = (Inr vh, s1) \<and> is_atheme vh \<and> vh \<noteq> VNone"
  then show "get_theme_hover s item = (Inr vh, s1)"
    by (simp add: get_theme_hover_some)
next
  assume a: "result_for s ''get_theme_hover'' item None = (Inr VNone, s1) \<and>
    result_for s1 ''get_theme_inactive'' item None = (Inr vi, s2) \<and> is_atheme vi \<and> vi \<noteq> VNone"
  then have "get_theme_hover s item = get_theme_inactive s1 item"
    by (simp add: get_theme_hover_none)
  with a show "get_theme_hover s item = (Inr vi, s2)"
    by (simp add: get_theme_inactive_some)
next
  assume a: "result_for s ''get_theme_hover'' item None = (Inr VNone, s1) \<and>
    result_for s1 ''get_theme_inactive'' item None = (Inr VNone, s2)"
  then have "get_theme_hover s item = get_theme_inactive s1 item"
    by (simp add: get_theme_hover_none)
  with a show "get_theme_hover s item = result_for s2 ''get_theme_active'' item None"
    by (simp add: get_theme_inactive_none)
qed

theorem get_theme_fallback_witness:
  "fst (get_theme_inactive adapter_st 5) = Inr (VTheme theme_active0) \<and>
   fst (get_theme_hover adapter_st 5) = Inr (VTheme theme_active0) \<and>
   fst (get_theme_inactive adapter_st2 5) = Inr (VTheme theme0) \<and>
   fst (get_theme_hover adapter_st2 5) = Inr (VTheme theme0) \<and>
   fst (get_theme_hover adapter_st3 5) = Inr (VTheme theme_hover0)"
proof -
  note defs = result_for_def adapter_st3_def adapter_st2_def adapter_st_def person_def
    sub_special_def sub_general_def item_result_def cache_get_def call_handler_def invoke_def
    get_handler_for_def Let_def
  let ?i1 = "result_for adapter_st ''get_theme_inactive'' 5 None"
  let ?h1 = "result_for adapter_st ''get_theme_hover'' 5 None"
  let ?hi1 = "result_for (snd ?h1) ''get_theme_inactive'' 5 None"
  let ?i2 = "result_for adapter_st2 ''get_theme_inactive'' 5 None"
  let ?h2 = "result_for adapter_st2 ''get_theme_hover'' 5 None"
  let ?hi2 = "result_for (snd ?h2) ''get_theme_inactive'' 5 None"
  let ?h3 = "result_for adapter_st3 ''get_theme_hover'' 5 None"
  have i1: "?i1 = (Inr VNone, snd ?i1)" by (simp add: prod_eq_iff) (simp add: defs)
  have a1: "fst (result_for (snd ?i1) ''get_theme_active'' 5 None) = Inr (VTheme theme_active0)"
    by (simp add: defs)
  have h1: "?h1 = (Inr VNone, snd ?h1)" by (simp add: prod_eq_iff) (simp add: defs)
  have hi1: "?hi1 = (Inr VNone, snd ?hi1)" by (simp add: prod_eq_iff) (simp add: defs)
  have a2: "fst (result_for (snd ?hi1) ''get_theme_active'' 5 None) = Inr (VTheme theme_active0)"
    by (simp add: defs)
  have i2: "?i2 = (Inr (VTheme theme0), snd ?i2)" by (simp add: prod_eq_iff) (simp add: defs)
  have h2: "?h2 = (Inr VNone, snd ?h2)" by (simp add: prod_eq_iff) (simp add: defs)
  have hi2: "?hi2 = (Inr (VTheme theme0), snd ?hi2)" by (simp add: prod_eq_iff) (simp add: defs)
  have h3: "?h3 = (Inr (VTheme theme_hover0), snd ?h3)" by (simp add: prod_eq_iff) (simp add: defs)
  have t: "is_atheme (VTheme theme0)" "VTheme theme0 \<noteq> VNone"
    "is_atheme (VTheme theme_hover0)" "VTheme theme_hover0 \<noteq> VNone"
    by simp_all
  from get_theme_fallback [of adapter_st 5 VNone "snd ?i1"] i1
  have r1: "get_theme_inactive adapter_st 5 = result_for (snd ?i1) ''get_theme_active'' 5 None"
    by blast
  from get_theme_fallback [of adapter_st 5 VNone "snd ?h1" VNone "snd ?hi1"] h1 hi1
  have r2: "get_theme_hover adapter_st 5 = result_for (snd ?hi1) ''get_theme_active'' 5 None"
    by blast
  from get_theme_fallback [of adapter_st2 5 "VTheme theme0" "snd ?i2"] i2 t
  have r3: "get_theme_inactive adapter_st2 5 = (Inr (VTheme theme0), snd ?i2)"
    by blast
  from get_theme_fallback [of adapter_st2 5 "VTheme theme0" "snd ?h2" VNone "snd ?hi2"] h2 hi2 t
  have r4: "get_theme_hover adapter_st2 5 = (Inr (VTheme theme0), snd ?hi2)"
    by blast
  from get_theme_fallback [of adapter_st3 5 VNone "snd ?h3" "VTheme theme_hover0"] h3 t
  have r5: "get_theme_hover adapter_st3 5 = (Inr (VTheme theme_hover0), snd ?h3)"
    by blast
  show ?thesis by (simp add: r1 r2 r3 r4 r5 a1 a2)
qed

subsection \<open>The handler cache\<close>

lemma invoke_cache: "cache (snd (invoke s h)) = cache s"
  by (cases h) (simp_all add: invoke_def Let_def split: option.splits)

lemma scan_adapters_cache:
  "cache (snd (scan_adapters s as prefix trait_name item dr)) = cache s"
  by (induction as arbitrary: s) (simp_all add: Let_def)

text \<open>A call that finds a handler in the cache calls it, with the item and the drop of the call.\<close>

lemma result_for_cache_hit:
  assumes "item_result s (take 4 name) (drop 4 name) item dr = None"
    and "cache_get (cache s) (class_name (objects s item) @ '':'' @ name) = Some h"
  shows "result_for s name item dr = invoke (s\<lparr>ad_item := Some item, ad_drop := dr\<rparr>) h"
  using assms by (simp add: result_for_def Let_def)

text \<open>A handler of a sub-adapter that is not cacheable is called and not stored.\<close>

lemma result_for_not_cacheable:
  assumes "item_result s (take 4 name) (drop 4 name) item dr = None"
    and "cache_get (cache s) (class_name (objects s item) @ '':'' @ name) = None"
    and "fst (scan_adapters (s\<lparr>ad_item := Some item, ad_drop := dr\<rparr>) (adapters s)
               (take 4 name) (drop 4 name) item dr) = NotCacheable h"
  shows "cache (snd (result_for s name item dr)) = cache s"
proof -
  let ?s1 = "s\<lparr>ad_item := Some item, ad_drop := dr\<rparr>"
  obtain r s2 where sc: "scan_adapters ?s1 (adapters s) (take 4 name) (drop 4 name) item dr = (r, s2)"
    by (cases "scan_adapters ?s1 (adapters s) (take 4 name) (drop 4 name) item dr") auto
  with assms(3) have r: "r = NotCacheable h" by simp
  have c2: "cache s2 = cache s"
    using scan_adapters_cache [of ?s1 "adapters s" "take 4 name" "drop 4 name" item dr] sc by simp
  have "result_for s name item dr = invoke s2 h"
    using assms(1,2) by (simp add: result_for_def Let_def sc r)
  then show ?thesis by (simp add: invoke_cache c2)
qed

text \<open>
  C6 on the adapter \<open>adapter_st\<close>, whose sub-adapters are \<open>[sub_special, sub_general]\<close>.
  The call \<open>get_title\<close> for object 5 of class \<open>Person\<close> is declined by \<open>sub_special\<close> and
  answered by \<open>sub_general\<close>, whose handler is stored under \<open>'Person:get_title'\<close>. The
  next call, for object 7 of the same class, calls the cached handler and answers
  \<open>'general'\<close>, although the list of sub-adapters is unchanged and a resolution without
  the cache asks \<open>sub_special\<close> first, which accepts object 7, answers \<open>'special'\<close> and
  stores nothing.
\<close>

theorem result_for_cache_shadows:
  "fst (get_title adapter_st 5) = Inr (VStr ''general'') \<and>
   cache (snd (get_title adapter_st 5)) ''Person:get_title'' = Some (Some (SubGet 1 ''title'')) \<and>
   adapters (snd (get_title adapter_st 5)) = adapters adapter_st \<and>
   fst (get_title (snd (get_title adapter_st 5)) 7) = Inr (VStr ''general'') \<and>
   fst (resolve_fresh (snd (get_title adapter_st 5)) ''get_title'' 7 None) = Inr (VStr ''special'') \<and>
   cache (snd (resolve_fresh (snd (get_title adapter_st 5)) ''get_title'' 7 None)) = Map.empty"
proof (intro conjI)
  note defs = get_title_def resolve_fresh_def result_for_def adapter_st_def person_def
    sub_special_def sub_general_def item_result_def cache_get_def call_handler_def
    invoke_def Let_def
  show "fst (get_title adapter_st 5) = Inr (VStr ''general'')"
    by (simp add: defs)
  show "cache (snd (get_title adapter_st 5)) ''Person:get_title'' = Some (Some (SubGet 1 ''title''))"
    by (simp add: defs)
  show "adapters (snd (get_title adapter_st 5)) = adapters adapter_st"
    by (simp add: defs)
  show "fst (get_title (snd (get_title adapter_st 5)) 7) = Inr (VStr ''general'')"
    by (simp add: defs)
  show "fst (resolve_fresh (snd (get_title adapter_st 5)) ''get_title'' 7 None) = Inr (VStr ''special'')"
    by (simp add: defs)
  show "cache (snd (resolve_fresh (snd (get_title adapter_st 5)) ''get_title'' 7 None)) = Map.empty"
    by (simp add: defs)
qed

end
